theory Spec2Isabelle
  imports Complex_Main "HOL-Library.Multiset" "HOL-Library.AList"
begin

section \<open>Data model of \<open>main.py\<close>\<close>

text \<open>
  A \<open>datetime\<close> is modelled as an integer number of microseconds on the proleptic
  Gregorian time line, so that comparison is integer comparison and \<open>.date()\<close> is the
  day number. The numeric columns (Postgres \<open>numeric\<close>, converted by \<open>float(...)\<close>) are
  modelled as exact rationals: the conversion and the float arithmetic are idealised.
\<close>

type_synonym datetime = int
type_synonym date = int

definition date_of :: "datetime \<Rightarrow> date" where
  "date_of t = t div 86400000000"

text \<open>One row of the joined query of \<open>get_closed_positions\<close>:
  \<open>s.id, s.created_at, op.symbol, op.side, op.entry_price, op.mark_price, op.pnl_usd, op.leverage\<close>.\<close>

record row =
  row_id :: int
  row_created_at :: datetime
  row_symbol :: string
  row_side :: string
  row_entry_price :: "rat option"
  row_mark_price :: "rat option"
  row_pnl_usd :: "rat option"
  row_leverage :: "string option"

text \<open>The dict stored per position key inside a snapshot.\<close>

record pos_data =
  pd_symbol :: string
  pd_side :: string
  pd_entry_price :: rat
  pd_mark_price :: rat
  pd_pnl_usd :: rat
  pd_leverage :: "string option"

text \<open>An entry of \<open>snapshots_map\<close>. Python dicts keep insertion order and assignment to an
  existing key keeps its place, so a dict is an association list updated by
  \<open>AList.update\<close> (replace in place, else append).\<close>

record snapshot =
  created_at :: datetime
  positions :: "(string \<times> pos_data) list"

type_synonym snapshots_map = "(int \<times> snapshot) list"

record closed_position =
  symbol :: string
  side :: string
  entry_price :: rat
  exit_price :: rat
  pnl_usd :: rat
  opened_at :: datetime
  closed_at :: datetime
  leverage :: "string option"

section \<open>\<open>get_closed_positions\<close>\<close>

text \<open>\<open>f"{row[2]}_{row[3]}"\<close>\<close>

definition pos_key :: "string \<Rightarrow> string \<Rightarrow> string" where
  "pos_key sy sd = sy @ ''_'' @ sd"

text \<open>\<open>float(x) if x is not None else 0\<close>\<close>

definition float_or_zero :: "rat option \<Rightarrow> rat" where
  "float_or_zero x = (case x of None \<Rightarrow> 0 | Some v \<Rightarrow> v)"

definition pos_data_of_row :: "row \<Rightarrow> pos_data" where
  "pos_data_of_row r =
     \<lparr>pd_symbol = row_symbol r, pd_side = row_side r,
      pd_entry_price = float_or_zero (row_entry_price r),
      pd_mark_price = float_or_zero (row_mark_price r),
      pd_pnl_usd = float_or_zero (row_pnl_usd r),
      pd_leverage = row_leverage r\<rparr>"

text \<open>The body of \<open>for row in rows\<close>.\<close>

definition add_row :: "snapshots_map \<Rightarrow> row \<Rightarrow> snapshots_map" where
  "add_row m r =
     (let m' = (if map_of m (row_id r) = None
                then AList.update (row_id r) \<lparr>created_at = row_created_at r, positions = []\<rparr> m
                else m)
      in AList.map_entry (row_id r)
           (\<lambda>s. s\<lparr>positions :=
                    AList.update (pos_key (row_symbol r) (row_side r)) (pos_data_of_row r)
                      (positions s)\<rparr>) m')"

definition build_snapshots_map :: "row list \<Rightarrow> snapshots_map" where
  "build_snapshots_map rows = foldl add_row [] rows"

text \<open>
  \<open>sorted(snapshots_map.keys(), key=lambda k: snapshots_map[k]['created_at'])\<close>, each id being
  looked up again in the loop. \<open>sorted\<close> is stable, as \<open>sort_key\<close> is; the entries are sorted
  together with their ids, which are the keys of the dict.
\<close>

definition sorted_snapshots :: "snapshots_map \<Rightarrow> (int \<times> snapshot) list" where
  "sorted_snapshots m = sort_key (\<lambda>e. created_at (snd e)) m"

definition sorted_snap_ids :: "snapshots_map \<Rightarrow> int list" where
  "sorted_snap_ids m = map fst (sorted_snapshots m)"

text \<open>The state of the loop: \<open>closed_positions\<close> and \<open>position_start_times\<close>.\<close>

record tracker =
  closed_positions :: "closed_position list"
  position_start_times :: "string \<rightharpoonup> datetime"

definition init_tracker :: tracker where
  "init_tracker = \<lparr>closed_positions = [], position_start_times = Map.empty\<rparr>"

text \<open>Step 1 of an iteration: \<open>for pos_key in curr_positions: if pos_key not in
  position_start_times: position_start_times[pos_key] = curr_time\<close>.\<close>

definition register_new :: "snapshot \<Rightarrow> tracker \<Rightarrow> tracker" where
  "register_new cur st =
     st\<lparr>position_start_times :=
          fold (\<lambda>k t. if t k = None then t(k \<mapsto> created_at cur) else t)
            (map fst (positions cur)) (position_start_times st)\<rparr>"

text \<open>The body of \<open>for pos_key, pos_data in curr_positions.items()\<close>.\<close>

definition close_one :: "snapshot \<Rightarrow> snapshot \<Rightarrow> string \<times> pos_data \<Rightarrow> tracker \<Rightarrow> tracker" where
  "close_one cur nxt kd st =
     (if map_of (positions nxt) (fst kd) = None then
        \<lparr>closed_positions = closed_positions st @
           [\<lparr>symbol = pd_symbol (snd kd), side = pd_side (snd kd),
             entry_price = pd_entry_price (snd kd),
             exit_price = pd_mark_price (snd kd),
             pnl_usd = pd_pnl_usd (snd kd),
             opened_at = (case position_start_times st (fst kd) of
                            None \<Rightarrow> created_at cur | Some t \<Rightarrow> t),
             closed_at = created_at nxt,
             leverage = pd_leverage (snd kd)\<rparr>],
         position_start_times = (position_start_times st)((fst kd) := None)\<rparr>
      else st)"

definition detect_closures :: "snapshot \<Rightarrow> snapshot \<Rightarrow> tracker \<Rightarrow> tracker" where
  "detect_closures cur nxt st = fold (close_one cur nxt) (positions cur) st"

text \<open>\<open>for i in range(len(sorted_snap_ids))\<close>: the current snapshot is the head of the list,
  the next one, when \<open>i < len(sorted_snap_ids) - 1\<close>, its successor.\<close>

fun reconcile :: "snapshot list \<Rightarrow> tracker \<Rightarrow> tracker" where
  "reconcile [] st = st"
| "reconcile [cur] st = register_new cur st"
| "reconcile (cur # nxt # rest) st =
     reconcile (nxt # rest) (detect_closures cur nxt (register_new cur st))"

text \<open>\<open>closed_positions.sort(key=lambda x: x.closed_at, reverse=True)\<close>: a stable sort in
  descending order, which keeps equal keys in their original order.\<close>

definition sort_closed_desc :: "closed_position list \<Rightarrow> closed_position list" where
  "sort_closed_desc cs = rev (sort_key closed_at (rev cs))"

definition walked_snapshots :: "row list \<Rightarrow> snapshot list" where
  "walked_snapshots rows = map snd (sorted_snapshots (build_snapshots_map rows))"

definition run_tracker :: "row list \<Rightarrow> tracker" where
  "run_tracker rows = reconcile (walked_snapshots rows) init_tracker"

definition get_closed_positions :: "row list \<Rightarrow> closed_position list" where
  "get_closed_positions rows = sort_closed_desc (closed_positions (run_tracker rows))"

text \<open>
  The query that feeds \<open>get_closed_positions\<close>:
  \<open>FROM account_snapshots s JOIN open_positions op ON s.id = op.snapshot_id ORDER BY s.created_at ASC\<close>.
  The inner join pairs every snapshot with each of its position rows; the order among rows of
  equal \<open>created_at\<close> is left open by the query, so a result is any ordering of the joined
  rows that ascends in \<open>created_at\<close>.
\<close>

record account_snapshot =
  as_id :: int
  as_created_at :: datetime
  as_balance_usd :: rat

record open_position =
  op_snapshot_id :: int
  op_symbol :: string
  op_side :: string
  op_entry_price :: "rat option"
  op_mark_price :: "rat option"
  op_pnl_usd :: "rat option"
  op_leverage :: "string option"

definition joined_row :: "account_snapshot \<Rightarrow> open_position \<Rightarrow> row" where
  "joined_row s p =
     \<lparr>row_id = as_id s, row_created_at = as_created_at s,
      row_symbol = op_symbol p, row_side = op_side p,
      row_entry_price = op_entry_price p, row_mark_price = op_mark_price p,
      row_pnl_usd = op_pnl_usd p, row_leverage = op_leverage p\<rparr>"

definition join_rows :: "account_snapshot list \<Rightarrow> open_position list \<Rightarrow> row list" where
  "join_rows snaps ops =
     concat (map (\<lambda>s. map (joined_row s) (filter (\<lambda>p. op_snapshot_id p = as_id s) ops)) snaps)"

definition query_result :: "account_snapshot list \<Rightarrow> open_position list \<Rightarrow> row list \<Rightarrow> bool" where
  "query_result snaps ops rows \<longleftrightarrow>
     mset rows = mset (join_rows snaps ops) \<and> sorted (map row_created_at rows)"

section \<open>\<open>ui_closed_positions\<close>\<close>

datatype py_error = ZeroDivisionError

text \<open>Python's \<open>/\<close>, which raises on a zero divisor.\<close>

definition py_truediv :: "rat \<Rightarrow> rat \<Rightarrow> py_error + rat" where
  "py_truediv a b = (if b = 0 then Inl ZeroDivisionError else Inr (a / b))"

text \<open>\<open>round(x, 1)\<close>: to one decimal, a tie going to the even last digit.\<close>

definition py_round1 :: "rat \<Rightarrow> rat" where
  "py_round1 x =
     (let y = x * 10; f = \<lfloor>y\<rfloor>; r = y - of_int f
      in if r < 1 / 2 then of_int f / 10
         else if 1 / 2 < r then of_int (f + 1) / 10
         else if even f then of_int f / 10 else of_int (f + 1) / 10)"

text \<open>\<open>datetime(2025, 12, 5).date()\<close>, as a day number.\<close>

definition split_date :: date where
  "split_date = 739590"

definition current_positions_of :: "closed_position list \<Rightarrow> closed_position list" where
  "current_positions_of ps = filter (\<lambda>p. split_date \<le> date_of (opened_at p)) ps"

definition archive_positions_of :: "closed_position list \<Rightarrow> closed_position list" where
  "archive_positions_of ps = filter (\<lambda>p. date_of (opened_at p) < split_date) ps"

record win_stats =
  total :: int
  wins :: int
  losses :: int
  win_rate :: rat

definition calculate_stats :: "closed_position list \<Rightarrow> py_error + win_stats" where
  "calculate_stats pos_list =
     (let n = int (length pos_list);
          w = int (length (filter (\<lambda>p. 0 < pnl_usd p) pos_list));
          l = n - w
      in case (if 0 < n
               then (case py_truediv (of_int w) (of_int n) of
                       Inl e \<Rightarrow> Inl e | Inr q \<Rightarrow> Inr (q * 100))
               else Inr 0) of
           Inl e \<Rightarrow> Inl e
         | Inr rate \<Rightarrow> Inr \<lparr>total = n, wins = w, losses = l, win_rate = py_round1 rate\<rparr>)"

record closed_positions_view =
  current_positions :: "closed_position list"
  archive_positions :: "closed_position list"
  current_stats :: win_stats
  archive_stats :: win_stats

definition ui_closed_positions :: "row list \<Rightarrow> py_error + closed_positions_view" where
  "ui_closed_positions rows =
     (let ps = get_closed_positions rows;
          cur = current_positions_of ps;
          arch = archive_positions_of ps
      in case calculate_stats cur of
           Inl e \<Rightarrow> Inl e
         | Inr cs \<Rightarrow>
             (case calculate_stats arch of
                Inl e \<Rightarrow> Inl e
              | Inr ars \<Rightarrow>
                  Inr \<lparr>current_positions = take 20 cur, archive_positions = take 20 arch,
                       current_stats = cs, archive_stats = ars\<rparr>))"

section \<open>\<open>ui_pnl_stats\<close>\<close>

record balance_point =
  timestamp :: datetime
  balance_usd :: rat

record balance_stats =
  initial_balance :: rat
  current_balance :: rat
  stats_pnl_usd :: rat
  pnl_percent :: rat

record pnl_view =
  pnl_current_stats :: "balance_stats option"
  pnl_archive_stats :: "balance_stats option"
  has_data :: bool

text \<open>The literal \<open>1032.0\<close> of the current regime.\<close>

definition initial_balance_new :: rat where
  "initial_balance_new = 1032"

text \<open>\<open>(pnl / initial * 100) if initial != 0 else 0\<close>\<close>

definition pnl_percent_of :: "rat \<Rightarrow> rat \<Rightarrow> py_error + rat" where
  "pnl_percent_of pnl initial =
     (if initial \<noteq> 0
      then (case py_truediv pnl initial of Inl e \<Rightarrow> Inl e | Inr q \<Rightarrow> Inr (q * 100))
      else Inr 0)"

definition archive_stats_of :: "balance_point list \<Rightarrow> py_error + balance_stats option" where
  "archive_stats_of points =
     (case filter (\<lambda>p. date_of (timestamp p) < split_date) points of
        [] \<Rightarrow> Inr None
      | p # ps \<Rightarrow>
          (let initial_balance_old = balance_usd p;
               final_balance_old = balance_usd (last (p # ps));
               pnl_usd_old = final_balance_old - initial_balance_old
           in case pnl_percent_of pnl_usd_old initial_balance_old of
                Inl e \<Rightarrow> Inl e
              | Inr pct \<Rightarrow>
                  Inr (Some \<lparr>initial_balance = initial_balance_old,
                             current_balance = final_balance_old,
                             stats_pnl_usd = pnl_usd_old, pnl_percent = pct\<rparr>)))"

definition current_stats_of :: "balance_point list \<Rightarrow> py_error + balance_stats option" where
  "current_stats_of points =
     (case filter (\<lambda>p. split_date \<le> date_of (timestamp p)) points of
        [] \<Rightarrow>
          Inr (Some \<lparr>initial_balance = 1032, current_balance = 1032,
                     stats_pnl_usd = 0, pnl_percent = 0\<rparr>)
      | p # ps \<Rightarrow>
          (let current_balance_new = balance_usd (last (p # ps));
               pnl_usd_new = current_balance_new - initial_balance_new
           in case pnl_percent_of pnl_usd_new initial_balance_new of
                Inl e \<Rightarrow> Inl e
              | Inr pct \<Rightarrow>
                  Inr (Some \<lparr>initial_balance = initial_balance_new,
                             current_balance = current_balance_new,
                             stats_pnl_usd = pnl_usd_new, pnl_percent = pct\<rparr>)))"

definition ui_pnl_stats :: "balance_point list \<Rightarrow> py_error + pnl_view" where
  "ui_pnl_stats points =
     (if points = [] then
        Inr \<lparr>pnl_current_stats = None, pnl_archive_stats = None, has_data = False\<rparr>
      else
        (case archive_stats_of points of
           Inl e \<Rightarrow> Inl e
         | Inr a \<Rightarrow>
             (case current_stats_of points of
                Inl e \<Rightarrow> Inl e
              | Inr c \<Rightarrow>
                  Inr \<lparr>pnl_current_stats = c, pnl_archive_stats = a, has_data = True\<rparr>)))"

section \<open>Notions used to state the properties\<close>

text \<open>The closed position that the loop builds from the record \<open>d\<close> of a vanished key.\<close>

definition closure_of :: "pos_data \<Rightarrow> datetime \<Rightarrow> datetime \<Rightarrow> closed_position" where
  "closure_of d t_open t_close =
     \<lparr>symbol = pd_symbol d, side = pd_side d, entry_price = pd_entry_price d,
      exit_price = pd_mark_price d, pnl_usd = pd_pnl_usd d,
      opened_at = t_open, closed_at = t_close, leverage = pd_leverage d\<rparr>"

text \<open>The entries of \<open>cur\<close> whose key is absent from \<open>nxt\<close>, in the order of \<open>cur\<close>.\<close>

definition vanished :: "snapshot \<Rightarrow> snapshot \<Rightarrow> (string \<times> pos_data) list" where
  "vanished cur nxt = filter (\<lambda>kd. map_of (positions nxt) (fst kd) = None) (positions cur)"

text \<open>The position key of a closed position, rebuilt from its symbol and side.\<close>

definition closed_key :: "closed_position \<Rightarrow> string" where
  "closed_key c = pos_key (symbol c) (side c)"

text \<open>
  The start of the unbroken run of snapshots containing \<open>k\<close> that ends at the newest
  snapshot; the list is given newest first. \<open>None\<close> when the newest snapshot lacks \<open>k\<close>.
\<close>

fun opened_since :: "snapshot list \<Rightarrow> string \<Rightarrow> datetime option" where
  "opened_since [] k = None"
| "opened_since (s # older) k =
     (if map_of (positions s) k = None then None
      else (case opened_since older k of
              None \<Rightarrow> Some (created_at s) | Some t \<Rightarrow> Some t))"

definition run_opened_at :: "snapshot list \<Rightarrow> string \<Rightarrow> datetime option" where
  "run_opened_at snaps k = opened_since (rev snaps) k"

text \<open>What the construction of \<open>snapshots_map\<close> guarantees of a snapshot: at least one
  position, one entry per key, and each key built from the symbol and side of its record.\<close>

definition snapshot_wf :: "snapshot \<Rightarrow> bool" where
  "snapshot_wf s \<longleftrightarrow>
     positions s \<noteq> [] \<and> distinct (map fst (positions s)) \<and>
     (\<forall>kd \<in> set (positions s). fst kd = pos_key (pd_symbol (snd kd)) (pd_side (snd kd)))"

text \<open>The entries of \<open>snapshots_map\<close> come from the rows of their snapshot id.\<close>

definition entry_from_rows :: "row list \<Rightarrow> int \<times> snapshot \<Rightarrow> bool" where
  "entry_from_rows rows e \<longleftrightarrow>
     (\<exists>r \<in> set rows. row_id r = fst e \<and> created_at (snd e) = row_created_at r) \<and>
     (\<forall>kd \<in> set (positions (snd e)). \<exists>r \<in> set rows.
         row_id r = fst e \<and> fst kd = pos_key (row_symbol r) (row_side r) \<and>
         snd kd = pos_data_of_row r)"

text \<open>
  A history of five snapshots used to illustrate the results: \<open>BTC_long\<close> is held in
  snapshots 1 and 2, gone in 3 and back in 4 and 5; \<open>ETH_short\<close>, whose numeric columns are
  all \<open>NULL\<close>, is held in snapshots 2 to 4 and gone in 5.
\<close>

definition example_row ::
  "int \<Rightarrow> datetime \<Rightarrow> string \<Rightarrow> string \<Rightarrow> rat option \<Rightarrow> rat option \<Rightarrow> rat option \<Rightarrow> row" where
  "example_row i t sy sd e m p =
     \<lparr>row_id = i, row_created_at = t, row_symbol = sy, row_side = sd,
      row_entry_price = e, row_mark_price = m, row_pnl_usd = p, row_leverage = None\<rparr>"

definition example_rows :: "row list" where
  "example_rows =
     [example_row 1 10 ''BTC'' ''long'' (Some 100) (Some 110) (Some 10),
      example_row 2 20 ''BTC'' ''long'' (Some 100) (Some 120) (Some 20),
      example_row 2 20 ''ETH'' ''short'' None None None,
      example_row 3 30 ''ETH'' ''short'' None None None,
      example_row 4 40 ''BTC'' ''long'' (Some 130) (Some 131) (Some 1),
      example_row 4 40 ''ETH'' ''short'' None None None,
      example_row 5 50 ''BTC'' ''long'' (Some 130) (Some 125) (Some (- 5))]"

text \<open>Two snapshots of equal timestamp, the one of larger id fetched first.\<close>

definition tie_rows :: "row list" where
  "tie_rows =
     [example_row 2 10 ''BTC'' ''long'' (Some 100) (Some 110) (Some 10),
      example_row 1 10 ''ETH'' ''short'' (Some 50) (Some 40) (Some 10)]"

text \<open>Three account snapshots of which the second has no open position.\<close>

definition gap_snapshots :: "account_snapshot list" where
  "gap_snapshots =
     [\<lparr>as_id = 1, as_created_at = 10, as_balance_usd = 1000\<rparr>,
      \<lparr>as_id = 2, as_created_at = 20, as_balance_usd = 1010\<rparr>,
      \<lparr>as_id = 3, as_created_at = 30, as_balance_usd = 1010\<rparr>]"

definition gap_positions :: "open_position list" where
  "gap_positions =
     [\<lparr>op_snapshot_id = 1, op_symbol = ''BTC'', op_side = ''long'',
       op_entry_price = Some 100, op_mark_price = Some 110, op_pnl_usd = Some 10,
       op_leverage = None\<rparr>,
      \<lparr>op_snapshot_id = 3, op_symbol = ''ETH'', op_side = ''short'',
       op_entry_price = Some 50, op_mark_price = Some 40, op_pnl_usd = Some 10,
       op_leverage = None\<rparr>]"

section \<open>Position keys\<close>

lemma append_sep_inj:
  assumes "x \<notin> set a" "x \<notin> set b" and "u @ x # a = v @ x # b"
  shows "u = v \<and> a = b"
proof -
  have tw: "takeWhile (\<lambda>c. c \<noteq> x) (rev c @ x # w) = rev c" if "x \<notin> set c" for c w
  proof -
    have "takeWhile (\<lambda>c. c \<noteq> x) (rev c @ x # w) = rev c @ takeWhile (\<lambda>c. c \<noteq> x) (x # w)"
      using that by (intro takeWhile_append2) auto
    then show ?thesis by simp
  qed
  have "rev (u @ x # a) = rev (v @ x # b)" by (simp only: assms(3))
  then have eq: "rev a @ x # rev u = rev b @ x # rev v" by simp
  then have "takeWhile (\<lambda>c. c \<noteq> x) (rev a @ x # rev u) =
             takeWhile (\<lambda>c. c \<noteq> x) (rev b @ x # rev v)" by (rule arg_cong)
  then have "rev a = rev b" by (simp only: tw[OF assms(1)] tw[OF assms(2)])
  then have ab: "a = b" by simp
  with assms(3) have "u = v" by simp
  with ab show ?thesis by simp
qed

text \<open>The key \<open>f"{symbol}_{side}"\<close> determines the pair of symbol and side as long as the side
  contains no underscore, as \<open>long\<close> and \<open>short\<close> do not.\<close>

lemma pos_key_inj:
  assumes "CHR ''_'' \<notin> set sd" "CHR ''_'' \<notin> set sd'"
    and "pos_key sy sd = pos_key sy' sd'"
  shows "sy = sy' \<and> sd = sd'"
proof -
  have "sy @ CHR ''_'' # sd = sy' @ CHR ''_'' # sd'"
    using assms(3) unfolding pos_key_def by simp
  with assms(1,2) show ?thesis by (rule append_sep_inj)
qed

section \<open>Construction of the snapshot map\<close>

subsection \<open>Association lists\<close>

lemma set_update_subset: "set (AList.update k v al) \<subseteq> insert (k, v) (set al)"
  by (induction al) auto

lemma set_map_entry_cases:
  "e \<in> set (AList.map_entry k f al) \<Longrightarrow>
     e \<in> set al \<or> (\<exists>v. (k, v) \<in> set al \<and> e = (k, f v))"
  by (induction al) (auto split: if_splits)

lemma keys_map_entry: "map fst (AList.map_entry k f al) = map fst al"
  by (induction al) auto

lemma update_absent: "map_of al k = None \<Longrightarrow> AList.update k v al = al @ [(k, v)]"
  by (induction al) (auto split: if_splits)

lemma map_entry_append_absent:
  "map_of al k = None \<Longrightarrow> AList.map_entry k f (al @ [(k, v)]) = al @ [(k, f v)]"
  by (induction al) (auto split: if_splits)

subsection \<open>Building snapshots_map\<close>

lemma build_snoc:
  "build_snapshots_map (rows @ [r]) = add_row (build_snapshots_map rows) r"
  by (simp add: build_snapshots_map_def)

lemma add_row_new:
  assumes "map_of m (row_id r) = None"
  shows "add_row m r = m @ [(row_id r,
            \<lparr>created_at = row_created_at r,
             positions = [(pos_key (row_symbol r) (row_side r), pos_data_of_row r)]\<rparr>)]"
  using assms by (simp add: add_row_def update_absent map_entry_append_absent)

lemma add_row_old:
  assumes "map_of m (row_id r) \<noteq> None"
  shows "add_row m r = AList.map_entry (row_id r)
           (\<lambda>s. s\<lparr>positions :=
                    AList.update (pos_key (row_symbol r) (row_side r)) (pos_data_of_row r)
                      (positions s)\<rparr>) m"
proof -
  from assms obtain y where "map_of m (row_id r) = Some y" by blast
  then show ?thesis by (simp add: add_row_def)
qed

lemma keys_add_row:
  "map fst (add_row m r) =
     (if map_of m (row_id r) = None then map fst m @ [row_id r] else map fst m)"
  by (simp add: add_row_new add_row_old keys_map_entry)

lemma distinct_keys_add_row:
  "distinct (map fst m) \<Longrightarrow> distinct (map fst (add_row m r))"
  by (auto simp: keys_add_row map_of_eq_None_iff)

lemma distinct_keys_build: "distinct (map fst (build_snapshots_map rows))"
  by (induction rows rule: rev_induct)
     (simp_all add: build_snoc distinct_keys_add_row build_snapshots_map_def)

lemma entry_from_rows_mono:
  "entry_from_rows rows e \<Longrightarrow> entry_from_rows (rows @ [r]) e"
  unfolding entry_from_rows_def by fastforce

lemma snapshot_wf_update:
  assumes "positions s = [] \<or> snapshot_wf s"
  shows "snapshot_wf (s\<lparr>positions :=
           AList.update (pos_key (row_symbol r) (row_side r)) (pos_data_of_row r) (positions s)\<rparr>)"
proof -
  let ?k = "pos_key (row_symbol r) (row_side r)"
  let ?d = "pos_data_of_row r"
  have d: "distinct (map fst (positions s))"
    and kd: "\<forall>kd \<in> set (positions s). fst kd = pos_key (pd_symbol (snd kd)) (pd_side (snd kd))"
    using assms by (auto simp: snapshot_wf_def)
  have 1: "AList.update ?k ?d (positions s) \<noteq> []" by simp
  have 2: "distinct (map fst (AList.update ?k ?d (positions s)))"
    using d by (rule distinct_update)
  have 3: "\<forall>kd \<in> set (AList.update ?k ?d (positions s)).
             fst kd = pos_key (pd_symbol (snd kd)) (pd_side (snd kd))"
    using kd set_update_subset[of ?k ?d "positions s"]
    by (auto simp: pos_data_of_row_def)
  show ?thesis using 1 2 3 by (simp add: snapshot_wf_def)
qed

lemma entry_from_rows_update:
  assumes "positions s = [] \<or> entry_from_rows rows (row_id r, s)"
    and "created_at s = row_created_at r \<or> entry_from_rows rows (row_id r, s)"
  shows "entry_from_rows (rows @ [r]) (row_id r, s\<lparr>positions :=
           AList.update (pos_key (row_symbol r) (row_side r)) (pos_data_of_row r) (positions s)\<rparr>)"
proof -
  let ?k = "pos_key (row_symbol r) (row_side r)"
  let ?d = "pos_data_of_row r"
  have a: "\<exists>r' \<in> set (rows @ [r]). row_id r' = row_id r \<and> created_at s = row_created_at r'"
    using assms(2) by (auto simp: entry_from_rows_def)
  have old: "\<forall>kd \<in> set (positions s). \<exists>r' \<in> set rows.
         row_id r' = row_id r \<and> fst kd = pos_key (row_symbol r') (row_side r') \<and>
         snd kd = pos_data_of_row r'"
    using assms(1) by (auto simp: entry_from_rows_def)
  have b: "\<forall>kd \<in> set (AList.update ?k ?d (positions s)). \<exists>r' \<in> set (rows @ [r]).
         row_id r' = row_id r \<and> fst kd = pos_key (row_symbol r') (row_side r') \<and>
         snd kd = pos_data_of_row r'"
  proof
    fix kd assume "kd \<in> set (AList.update ?k ?d (positions s))"
    then have "kd = (?k, ?d) \<or> kd \<in> set (positions s)"
      using set_update_subset[of ?k ?d "positions s"] by auto
    then show "\<exists>r' \<in> set (rows @ [r]).
         row_id r' = row_id r \<and> fst kd = pos_key (row_symbol r') (row_side r') \<and>
         snd kd = pos_data_of_row r'"
    proof
      assume "kd = (?k, ?d)" then show ?thesis by auto
    next
      assume "kd \<in> set (positions s)"
      with old obtain r' where "r' \<in> set rows" "row_id r' = row_id r"
        "fst kd = pos_key (row_symbol r') (row_side r')" "snd kd = pos_data_of_row r'"
        by blast
      then show ?thesis by auto
    qed
  qed
  show ?thesis using a b by (simp add: entry_from_rows_def)
qed

lemma add_row_invariant:
  assumes "\<forall>e \<in> set m. snapshot_wf (snd e) \<and> entry_from_rows rows e"
  shows "\<forall>e \<in> set (add_row m r). snapshot_wf (snd e) \<and> entry_from_rows (rows @ [r]) e"
proof (cases "map_of m (row_id r) = None")
  case True
  let ?s0 = "\<lparr>created_at = row_created_at r, positions = []\<rparr>"
  have new: "add_row m r = m @ [(row_id r, ?s0\<lparr>positions :=
      AList.update (pos_key (row_symbol r) (row_side r)) (pos_data_of_row r) (positions ?s0)\<rparr>)]"
    using True by (simp add: add_row_new)
  have w: "snapshot_wf (?s0\<lparr>positions :=
      AList.update (pos_key (row_symbol r) (row_side r)) (pos_data_of_row r) (positions ?s0)\<rparr>)"
    by (rule snapshot_wf_update) simp
  have f: "entry_from_rows (rows @ [r]) (row_id r, ?s0\<lparr>positions :=
      AList.update (pos_key (row_symbol r) (row_side r)) (pos_data_of_row r) (positions ?s0)\<rparr>)"
    by (rule entry_from_rows_update) simp_all
  show ?thesis
    unfolding new using assms w f entry_from_rows_mono by auto
next
  case False
  let ?f = "\<lambda>s. s\<lparr>positions :=
              AList.update (pos_key (row_symbol r) (row_side r)) (pos_data_of_row r)
                (positions s)\<rparr>"
  have old: "add_row m r = AList.map_entry (row_id r) ?f m"
    using False by (rule add_row_old)
  show ?thesis
  proof
    fix e assume "e \<in> set (add_row m r)"
    then have "e \<in> set m \<or> (\<exists>v. (row_id r, v) \<in> set m \<and> e = (row_id r, ?f v))"
      unfolding old by (rule set_map_entry_cases)
    then show "snapshot_wf (snd e) \<and> entry_from_rows (rows @ [r]) e"
    proof
      assume "e \<in> set m"
      with assms show ?thesis using entry_from_rows_mono by blast
    next
      assume "\<exists>v. (row_id r, v) \<in> set m \<and> e = (row_id r, ?f v)"
      then obtain v where v: "(row_id r, v) \<in> set m" and e: "e = (row_id r, ?f v)" by blast
      from assms v have wv: "snapshot_wf v" and fv: "entry_from_rows rows (row_id r, v)"
        by auto
      have "snapshot_wf (?f v)" using wv by (intro snapshot_wf_update) simp
      moreover have "entry_from_rows (rows @ [r]) (row_id r, ?f v)"
        using fv by (intro entry_from_rows_update) simp_all
      ultimately show ?thesis using e by simp
    qed
  qed
qed

lemma build_invariant:
  "\<forall>e \<in> set (build_snapshots_map rows). snapshot_wf (snd e) \<and> entry_from_rows rows e"
proof (induction rows rule: rev_induct)
  case Nil
  show ?case by (simp add: build_snapshots_map_def)
next
  case (snoc r rows)
  show ?case unfolding build_snoc using snoc by (rule add_row_invariant)
qed

lemma set_sorted_snapshots: "set (sorted_snapshots m) = set m"
  by (simp add: sorted_snapshots_def)

lemma walked_wf: "s \<in> set (walked_snapshots rows) \<Longrightarrow> snapshot_wf s"
  using build_invariant[of rows]
  by (auto simp: walked_snapshots_def set_sorted_snapshots)

lemma walked_from_rows:
  assumes "s \<in> set (walked_snapshots rows)" "kd \<in> set (positions s)"
  shows "\<exists>r \<in> set rows. fst kd = pos_key (row_symbol r) (row_side r) \<and> snd kd = pos_data_of_row r"
proof -
  from assms(1) obtain i where "(i, s) \<in> set (build_snapshots_map rows)"
    by (auto simp: walked_snapshots_def set_sorted_snapshots)
  then have "entry_from_rows rows (i, s)" using build_invariant[of rows] by auto
  with assms(2) show ?thesis unfolding entry_from_rows_def by fastforce
qed

section \<open>The reconciliation loop\<close>

subsection \<open>One iteration of the loop\<close>

lemma register_fold_pst:
  "fold (\<lambda>k t. if t k = None then t(k \<mapsto> c) else t) ks t0 =
     (\<lambda>k. if k \<in> set ks \<and> t0 k = None then Some c else t0 k)"
proof (induction ks arbitrary: t0)
  case Nil
  show ?case by simp
next
  case (Cons a ks)
  show ?case by (simp add: Cons.IH) (auto simp: fun_eq_iff)
qed

lemma register_new_pst:
  "position_start_times (register_new cur st) =
     (\<lambda>k. if map_of (positions cur) k \<noteq> None \<and> position_start_times st k = None
          then Some (created_at cur) else position_start_times st k)"
  by (simp add: register_new_def register_fold_pst map_of_eq_None_iff)

lemma register_new_closed:
  "closed_positions (register_new cur st) = closed_positions st"
  by (simp add: register_new_def)

lemma close_one_eq:
  "close_one cur nxt kd st =
     (if map_of (positions nxt) (fst kd) = None then
        \<lparr>closed_positions = closed_positions st @
           [closure_of (snd kd)
              (case position_start_times st (fst kd) of
                 None \<Rightarrow> created_at cur | Some t \<Rightarrow> t) (created_at nxt)],
         position_start_times = (position_start_times st)((fst kd) := None)\<rparr>
      else st)"
  by (simp add: close_one_def closure_of_def)

lemma fold_close_one:
  assumes "distinct (map fst xs)"
  shows "closed_positions (fold (close_one cur nxt) xs st) =
           closed_positions st @
           map (\<lambda>kd. closure_of (snd kd)
                  (case position_start_times st (fst kd) of
                     None \<Rightarrow> created_at cur | Some t \<Rightarrow> t) (created_at nxt))
             (filter (\<lambda>kd. map_of (positions nxt) (fst kd) = None) xs)
         \<and> position_start_times (fold (close_one cur nxt) xs st) =
           (\<lambda>k. if k \<in> fst ` set (filter (\<lambda>kd. map_of (positions nxt) (fst kd) = None) xs)
                then None else position_start_times st k)"
  using assms
proof (induction xs arbitrary: st)
  case Nil
  show ?case by simp
next
  case (Cons x xs)
  let ?st' = "close_one cur nxt x st"
  have d: "distinct (map fst xs)" and nx: "fst x \<notin> fst ` set xs"
    using Cons.prems by auto
  note IH = Cons.IH[OF d, of ?st']
  show ?case
  proof (cases "map_of (positions nxt) (fst x) = None")
    case True
    have same: "\<And>kd. kd \<in> set xs \<Longrightarrow>
        position_start_times ?st' (fst kd) = position_start_times st (fst kd)"
    proof -
      fix kd assume "kd \<in> set xs"
      then have "fst kd \<in> fst ` set xs" by (rule imageI)
      with nx have "fst kd \<noteq> fst x" by metis
      then show "position_start_times ?st' (fst kd) = position_start_times st (fst kd)"
        using True by (simp add: close_one_eq)
    qed
    have m: "map (\<lambda>kd. closure_of (snd kd)
                  (case position_start_times ?st' (fst kd) of
                     None \<Rightarrow> created_at cur | Some t \<Rightarrow> t) (created_at nxt))
             (filter (\<lambda>kd. map_of (positions nxt) (fst kd) = None) xs)
           = map (\<lambda>kd. closure_of (snd kd)
                  (case position_start_times st (fst kd) of
                     None \<Rightarrow> created_at cur | Some t \<Rightarrow> t) (created_at nxt))
             (filter (\<lambda>kd. map_of (positions nxt) (fst kd) = None) xs)"
      by (rule map_cong) (simp_all add: same)
    show ?thesis
      using True IH m by (auto simp: close_one_eq fun_eq_iff)
  next
    case False
    then obtain y where y: "map_of (positions nxt) (fst x) = Some y" by blast
    then have eq: "close_one cur nxt x st = st" by (simp add: close_one_eq)
    show ?thesis using IH y unfolding eq by (simp add: eq)
  qed
qed

lemma detect_closures_closed:
  assumes "distinct (map fst (positions cur))"
  shows "closed_positions (detect_closures cur nxt st) =
           closed_positions st @
           map (\<lambda>kd. closure_of (snd kd)
                  (case position_start_times st (fst kd) of
                     None \<Rightarrow> created_at cur | Some t \<Rightarrow> t) (created_at nxt))
             (vanished cur nxt)"
  using fold_close_one[OF assms] by (simp add: detect_closures_def vanished_def)

lemma detect_closures_pst:
  assumes "distinct (map fst (positions cur))"
  shows "position_start_times (detect_closures cur nxt st) =
           (\<lambda>k. if map_of (positions cur) k \<noteq> None \<and> map_of (positions nxt) k = None
                then None else position_start_times st k)"
proof -
  have "fst ` set (vanished cur nxt) =
          {k. map_of (positions cur) k \<noteq> None \<and> map_of (positions nxt) k = None}"
    by (force simp: vanished_def map_of_eq_None_iff)
  then show ?thesis
    using fold_close_one[OF assms, of cur nxt st]
    by (simp add: detect_closures_def vanished_def fun_eq_iff)
qed

subsection \<open>The loop, one snapshot at a time\<close>

lemma reconcile_snoc:
  "S \<noteq> [] \<Longrightarrow>
     reconcile (S @ [s]) st = register_new s (detect_closures (last S) s (reconcile S st))"
proof (induction S st rule: reconcile.induct)
  case (1 st)
  then show ?case by simp
next
  case (2 cur st)
  show ?case by simp
next
  case (3 cur nxt rest st)
  then show ?case by simp
qed

subsection \<open>The tracker in closed form\<close>

lemma run_opened_at_Nil: "run_opened_at [] k = None"
  by (simp add: run_opened_at_def)

lemma run_opened_at_snoc:
  "run_opened_at (S @ [s]) k =
     (if map_of (positions s) k = None then None
      else (case run_opened_at S k of None \<Rightarrow> Some (created_at s) | Some t \<Rightarrow> Some t))"
  by (simp add: run_opened_at_def)

lemma run_opened_at_absent_last:
  assumes "S \<noteq> []" "map_of (positions (last S)) k = None"
  shows "run_opened_at S k = None"
proof -
  from assms(1) obtain S' s where S: "S = S' @ [s]" by (metis rev_exhaust)
  with assms(2) show ?thesis by (simp add: run_opened_at_snoc)
qed

lemma run_opened_at_present_last:
  assumes "S \<noteq> []" "map_of (positions (last S)) k \<noteq> None"
  shows "run_opened_at S k \<noteq> None"
proof -
  from assms(1) obtain S' s where S: "S = S' @ [s]" by (metis rev_exhaust)
  with assms(2) show ?thesis by (auto simp: run_opened_at_snoc split: option.split)
qed

lemma tracker_state:
  assumes "\<forall>s \<in> set S. snapshot_wf s"
  shows "position_start_times (reconcile S init_tracker) k = run_opened_at S k"
  using assms
proof (induction S rule: rev_induct)
  case Nil
  show ?case by (simp add: init_tracker_def run_opened_at_Nil)
next
  case (snoc s S)
  show ?case
  proof (cases "S = []")
    case True
    then show ?thesis
      by (auto simp: register_new_pst init_tracker_def run_opened_at_def)
  next
    case False
    have IH: "position_start_times (reconcile S init_tracker) k = run_opened_at S k"
      using snoc by simp
    have d: "distinct (map fst (positions (last S)))"
      using snoc.prems False by (simp add: snapshot_wf_def)
    show ?thesis
    proof (cases "map_of (positions s) k = None")
      case True
      show ?thesis
      proof (cases "map_of (positions (last S)) k = None")
        case absent: True
        then have "run_opened_at S k = None"
          using False by (intro run_opened_at_absent_last)
        then show ?thesis
          using True absent IH
          by (simp add: reconcile_snoc[OF False] register_new_pst detect_closures_pst[OF d]
              run_opened_at_snoc)
      next
        case present: False
        then obtain y where "map_of (positions (last S)) k = Some y" by blast
        then show ?thesis
          using True
          by (simp add: reconcile_snoc[OF False] register_new_pst detect_closures_pst[OF d]
              run_opened_at_snoc)
      qed
    next
      case present: False
      then obtain y where y: "map_of (positions s) k = Some y" by blast
      show ?thesis
        using y IH
        by (simp add: reconcile_snoc[OF False] register_new_pst detect_closures_pst[OF d]
            run_opened_at_snoc split: option.split)
    qed
  qed
qed

text \<open>The closed positions appended when one more snapshot is walked.\<close>

lemma closed_snoc:
  assumes "S \<noteq> []" "\<forall>s \<in> set S. snapshot_wf s"
  shows "closed_positions (reconcile (S @ [s]) init_tracker) =
           closed_positions (reconcile S init_tracker) @
           map (\<lambda>kd. closure_of (snd kd)
                  (case run_opened_at S (fst kd) of
                     None \<Rightarrow> created_at (last S) | Some t \<Rightarrow> t) (created_at s))
             (vanished (last S) s)"
proof -
  have d: "distinct (map fst (positions (last S)))"
    using assms by (simp add: snapshot_wf_def)
  have "map (\<lambda>kd. closure_of (snd kd)
                  (case position_start_times (reconcile S init_tracker) (fst kd) of
                     None \<Rightarrow> created_at (last S) | Some t \<Rightarrow> t) (created_at s))
             (vanished (last S) s)
        = map (\<lambda>kd. closure_of (snd kd)
                  (case run_opened_at S (fst kd) of
                     None \<Rightarrow> created_at (last S) | Some t \<Rightarrow> t) (created_at s))
             (vanished (last S) s)"
    by (simp add: tracker_state[OF assms(2)])
  then show ?thesis
    by (simp add: reconcile_snoc[OF assms(1)] register_new_closed detect_closures_closed[OF d])
qed

lemma closed_single: "closed_positions (reconcile [s] init_tracker) = []"
  by (simp add: register_new_closed init_tracker_def)

lemma closed_Nil: "closed_positions (reconcile [] init_tracker) = []"
  by (simp add: init_tracker_def)

subsection \<open>The closed positions in closed form\<close>

lemma adjacent_snoc:
  assumes "S \<noteq> []"
  shows "map (\<lambda>i. F ((S @ [s]) ! i) ((S @ [s]) ! Suc i)) [0..<length (S @ [s]) - 1] =
         map (\<lambda>i. F (S ! i) (S ! Suc i)) [0..<length S - 1] @ [F (last S) s]"
proof -
  obtain n where n: "length S = Suc n" using assms by (cases S) auto
  have a: "map (\<lambda>i. F ((S @ [s]) ! i) ((S @ [s]) ! Suc i)) [0..<n] =
           map (\<lambda>i. F (S ! i) (S ! Suc i)) [0..<n]"
    by (rule map_cong) (simp_all add: nth_append n)
  have b: "F ((S @ [s]) ! n) ((S @ [s]) ! Suc n) = F (last S) s"
    using assms n by (simp add: nth_append last_conv_nth)
  show ?thesis by (simp add: n a b)
qed

lemma erase_closure_of: "(closure_of d t c)\<lparr>opened_at := 0\<rparr> = closure_of d 0 c"
  by (simp add: closure_of_def)

lemma closed_erased:
  assumes "\<forall>s \<in> set S. snapshot_wf s"
  shows "map (\<lambda>c. c\<lparr>opened_at := 0\<rparr>) (closed_positions (reconcile S init_tracker)) =
         concat (map (\<lambda>i. map (\<lambda>kd. closure_of (snd kd) 0 (created_at (S ! Suc i)))
                             (vanished (S ! i) (S ! Suc i)))
                   [0..<length S - 1])"
  using assms
proof (induction S rule: rev_induct)
  case Nil
  show ?case by (simp add: init_tracker_def)
next
  case (snoc s S)
  show ?case
  proof (cases "S = []")
    case True
    then show ?thesis by (simp add: register_new_closed init_tracker_def)
  next
    case False
    have wf: "\<forall>s \<in> set S. snapshot_wf s" using snoc.prems by simp
    note IH = snoc.IH[OF wf]
    show ?thesis
      unfolding adjacent_snoc[OF False, of "\<lambda>cur nxt. map (\<lambda>kd. closure_of (snd kd) 0 (created_at nxt))
                             (vanished cur nxt)" s]
      by (simp add: closed_snoc[OF False wf] IH erase_closure_of comp_def)
  qed
qed

lemma mset_sort_closed_desc: "mset (sort_closed_desc cs) = mset cs"
  by (simp add: sort_closed_desc_def)

lemma set_sort_closed_desc: "set (sort_closed_desc cs) = set cs"
  by (simp add: sort_closed_desc_def)

text \<open>
  Claim C1. Let \<open>S\<close> be the snapshot sequence in the order in which the loop walks it. Up
  to their own order and to \<open>opened_at\<close>, the closed positions returned are exactly: for every
  adjacent pair \<open>(S ! i, S ! Suc i)\<close> and every entry \<open>(k, d)\<close> of \<open>S ! i\<close> whose key is absent
  from \<open>S ! Suc i\<close>, one closed position with the symbol, side, entry price and leverage of
  \<open>d\<close>, \<open>exit_price\<close> the mark price of \<open>d\<close>, \<open>pnl_usd\<close> the pnl of \<open>d\<close>, and \<open>closed_at\<close> the
  timestamp of \<open>S ! Suc i\<close>. A snapshot holds one entry per key, the key being built from the
  symbol and side of the entry, so a vanished key yields exactly one closed position.
\<close>

theorem closures_of_adjacent_pairs:
  assumes "S = walked_snapshots rows"
  shows "mset (map (\<lambda>c. c\<lparr>opened_at := 0\<rparr>) (get_closed_positions rows)) =
         mset (concat (map (\<lambda>i. map (\<lambda>kd. closure_of (snd kd) 0 (created_at (S ! Suc i)))
                                   (vanished (S ! i) (S ! Suc i)))
                         [0..<length S - 1]))
       \<and> (\<forall>i < length S. snapshot_wf (S ! i))"
proof -
  have wf: "\<forall>s \<in> set S. snapshot_wf s"
    using assms walked_wf by blast
  have "mset (map (\<lambda>c. c\<lparr>opened_at := 0\<rparr>) (get_closed_positions rows)) =
        mset (map (\<lambda>c. c\<lparr>opened_at := 0\<rparr>) (closed_positions (reconcile S init_tracker)))"
    by (simp add: get_closed_positions_def run_tracker_def assms mset_sort_closed_desc)
  moreover have "\<forall>i < length S. snapshot_wf (S ! i)"
    using wf by simp
  ultimately show ?thesis
    by (simp add: closed_erased[OF wf])
qed

subsection \<open>Where a closed position comes from\<close>

lemma closure_of_fields:
  "symbol (closure_of d t c) = pd_symbol d" "side (closure_of d t c) = pd_side d"
  "entry_price (closure_of d t c) = pd_entry_price d"
  "exit_price (closure_of d t c) = pd_mark_price d"
  "pnl_usd (closure_of d t c) = pd_pnl_usd d" "opened_at (closure_of d t c) = t"
  "closed_at (closure_of d t c) = c" "leverage (closure_of d t c) = pd_leverage d"
  by (simp_all add: closure_of_def)

lemma closed_key_closure_of:
  "closed_key (closure_of d t c) = pos_key (pd_symbol d) (pd_side d)"
  by (simp add: closed_key_def closure_of_fields)

lemma erased_eq_closure_of:
  "c\<lparr>opened_at := 0\<rparr> = closure_of d 0 t \<longleftrightarrow> c = closure_of d (opened_at c) t"
  by (cases c) (auto simp: closure_of_def)

lemma in_vanished:
  "kd \<in> set (vanished cur nxt) \<longleftrightarrow>
     kd \<in> set (positions cur) \<and> map_of (positions nxt) (fst kd) = None"
  by (simp add: vanished_def)

lemma erased_closed_mem:
  assumes "\<forall>s \<in> set S. snapshot_wf s"
  shows "x \<in> (\<lambda>c. c\<lparr>opened_at := 0\<rparr>) ` set (closed_positions (reconcile S init_tracker)) \<longleftrightarrow>
     (\<exists>i kd. Suc i < length S \<and> kd \<in> set (positions (S ! i)) \<and>
        map_of (positions (S ! Suc i)) (fst kd) = None \<and>
        x = closure_of (snd kd) 0 (created_at (S ! Suc i)))"
proof -
  have "(\<lambda>c. c\<lparr>opened_at := 0\<rparr>) ` set (closed_positions (reconcile S init_tracker)) =
        set (map (\<lambda>c. c\<lparr>opened_at := 0\<rparr>) (closed_positions (reconcile S init_tracker)))"
    by simp
  also have "\<dots> = set (concat (map (\<lambda>i. map (\<lambda>kd. closure_of (snd kd) 0 (created_at (S ! Suc i)))
                             (vanished (S ! i) (S ! Suc i)))
                   [0..<length S - 1]))"
    by (simp only: closed_erased[OF assms])
  finally have eq: "(\<lambda>c. c\<lparr>opened_at := 0\<rparr>) ` set (closed_positions (reconcile S init_tracker)) =
      (\<Union>i \<in> {0..<length S - 1}.
          (\<lambda>kd. closure_of (snd kd) 0 (created_at (S ! Suc i))) ` set (vanished (S ! i) (S ! Suc i)))"
    by simp
  show ?thesis
  proof
    assume "x \<in> (\<lambda>c. c\<lparr>opened_at := 0\<rparr>) ` set (closed_positions (reconcile S init_tracker))"
    then obtain i kd where "i < length S - 1" "kd \<in> set (vanished (S ! i) (S ! Suc i))"
      "x = closure_of (snd kd) 0 (created_at (S ! Suc i))"
      unfolding eq by auto
    then have "Suc i < length S \<and> kd \<in> set (positions (S ! i)) \<and>
        map_of (positions (S ! Suc i)) (fst kd) = None \<and>
        x = closure_of (snd kd) 0 (created_at (S ! Suc i))"
      by (simp add: in_vanished less_diff_conv)
    then show "\<exists>i kd. Suc i < length S \<and> kd \<in> set (positions (S ! i)) \<and>
        map_of (positions (S ! Suc i)) (fst kd) = None \<and>
        x = closure_of (snd kd) 0 (created_at (S ! Suc i))" by blast
  next
    assume "\<exists>i kd. Suc i < length S \<and> kd \<in> set (positions (S ! i)) \<and>
        map_of (positions (S ! Suc i)) (fst kd) = None \<and>
        x = closure_of (snd kd) 0 (created_at (S ! Suc i))"
    then obtain i kd where i: "Suc i < length S" and kd: "kd \<in> set (positions (S ! i))"
      and ab: "map_of (positions (S ! Suc i)) (fst kd) = None"
      and x: "x = closure_of (snd kd) 0 (created_at (S ! Suc i))" by blast
    have "i \<in> {0..<length S - 1}" using i by simp
    moreover have "kd \<in> set (vanished (S ! i) (S ! Suc i))"
      using kd ab by (simp add: in_vanished)
    ultimately show
      "x \<in> (\<lambda>c. c\<lparr>opened_at := 0\<rparr>) ` set (closed_positions (reconcile S init_tracker))"
      unfolding eq x by blast
  qed
qed

lemma closed_origin:
  assumes "\<forall>s \<in> set S. snapshot_wf s"
    and "c \<in> set (closed_positions (reconcile S init_tracker))"
  shows "\<exists>i kd. Suc i < length S \<and> kd \<in> set (positions (S ! i)) \<and>
         map_of (positions (S ! Suc i)) (fst kd) = None \<and>
         c = closure_of (snd kd) (opened_at c) (created_at (S ! Suc i))"
proof -
  have "c\<lparr>opened_at := 0\<rparr> \<in>
          (\<lambda>c. c\<lparr>opened_at := 0\<rparr>) ` set (closed_positions (reconcile S init_tracker))"
    using assms(2) by (rule imageI)
  then obtain i kd where "Suc i < length S" "kd \<in> set (positions (S ! i))"
    "map_of (positions (S ! Suc i)) (fst kd) = None"
    "c\<lparr>opened_at := 0\<rparr> = closure_of (snd kd) 0 (created_at (S ! Suc i))"
    unfolding erased_closed_mem[OF assms(1)] by blast
  then have "Suc i < length S \<and> kd \<in> set (positions (S ! i)) \<and>
         map_of (positions (S ! Suc i)) (fst kd) = None \<and>
         c = closure_of (snd kd) (opened_at c) (created_at (S ! Suc i))"
    by (simp add: erased_eq_closure_of)
  then show ?thesis by blast
qed

lemma closed_exists:
  assumes "\<forall>s \<in> set S. snapshot_wf s"
    and "Suc i < length S" "kd \<in> set (positions (S ! i))"
    and "map_of (positions (S ! Suc i)) (fst kd) = None"
  shows "\<exists>c \<in> set (closed_positions (reconcile S init_tracker)).
           c = closure_of (snd kd) (opened_at c) (created_at (S ! Suc i))"
proof -
  have "closure_of (snd kd) 0 (created_at (S ! Suc i)) \<in>
          (\<lambda>c. c\<lparr>opened_at := 0\<rparr>) ` set (closed_positions (reconcile S init_tracker))"
    unfolding erased_closed_mem[OF assms(1)] using assms(2-4) by blast
  then obtain c where "c \<in> set (closed_positions (reconcile S init_tracker))"
    "c\<lparr>opened_at := 0\<rparr> = closure_of (snd kd) 0 (created_at (S ! Suc i))"
    by (auto simp: image_iff)
  then show ?thesis by (auto simp: erased_eq_closure_of)
qed

lemma set_get_closed_positions:
  "set (get_closed_positions rows) =
     set (closed_positions (reconcile (walked_snapshots rows) init_tracker))"
  by (simp add: get_closed_positions_def run_tracker_def set_sort_closed_desc)

lemma wf_key: "snapshot_wf s \<Longrightarrow> kd \<in> set (positions s) \<Longrightarrow>
    pos_key (pd_symbol (snd kd)) (pd_side (snd kd)) = fst kd"
  by (auto simp: snapshot_wf_def)

lemma wf_map_of: "snapshot_wf s \<Longrightarrow>
    kd \<in> set (positions s) \<longleftrightarrow> map_of (positions s) (fst kd) = Some (snd kd)"
  by (cases kd) (auto simp: snapshot_wf_def)

text \<open>
  Claim C2, amended. A position key appears in the returned list exactly when, for some
  adjacent pair of walked snapshots, it is present in the first and absent from the second.
  The last snapshot is never the first of a pair, so it triggers no closure; a key present in
  the last snapshot appears only for an earlier run of it that ended. Zero or one snapshots
  give the empty list.
\<close>

theorem closed_keys_characterised:
  assumes "S = walked_snapshots rows"
  shows "((\<exists>c \<in> set (get_closed_positions rows). closed_key c = k) \<longleftrightarrow>
          (\<exists>i. Suc i < length S \<and> map_of (positions (S ! i)) k \<noteq> None \<and>
               map_of (positions (S ! Suc i)) k = None))
       \<and> (length S \<le> 1 \<longrightarrow> get_closed_positions rows = [])"
proof -
  have wf: "\<forall>s \<in> set S. snapshot_wf s"
    using assms walked_wf by blast
  have set_eq: "set (get_closed_positions rows) = set (closed_positions (reconcile S init_tracker))"
    by (simp add: set_get_closed_positions assms)
  have "\<exists>i. Suc i < length S \<and> map_of (positions (S ! i)) k \<noteq> None \<and>
               map_of (positions (S ! Suc i)) k = None"
    if c: "c \<in> set (get_closed_positions rows)" and k: "closed_key c = k" for c
  proof -
    from closed_origin[OF wf] c set_eq obtain i kd where i: "Suc i < length S"
      and kd: "kd \<in> set (positions (S ! i))"
      and ab: "map_of (positions (S ! Suc i)) (fst kd) = None"
      and ceq: "c = closure_of (snd kd) (opened_at c) (created_at (S ! Suc i))"
      by blast
    have wfi: "snapshot_wf (S ! i)" using wf i by simp
    have "closed_key c = fst kd"
      by (subst ceq) (simp add: closed_key_closure_of wf_key[OF wfi kd])
    with k have fk: "fst kd = k" by simp
    have "map_of (positions (S ! i)) k = Some (snd kd)"
      using wf_map_of[OF wfi, of kd] kd fk by simp
    with i ab fk show ?thesis by auto
  qed
  moreover have "\<exists>c \<in> set (get_closed_positions rows). closed_key c = k"
    if i: "Suc i < length S" and p: "map_of (positions (S ! i)) k \<noteq> None"
      and a: "map_of (positions (S ! Suc i)) k = None" for i
  proof -
    from p obtain d where d: "map_of (positions (S ! i)) k = Some d" by blast
    have wfi: "snapshot_wf (S ! i)" using wf i by simp
    have kd: "(k, d) \<in> set (positions (S ! i))" using d by (rule map_of_SomeD)
    from closed_exists[OF wf i kd] a obtain c
      where c: "c \<in> set (closed_positions (reconcile S init_tracker))"
        and ceq: "c = closure_of d (opened_at c) (created_at (S ! Suc i))"
      by auto
    have "closed_key c = k"
      by (subst ceq) (use wf_key[OF wfi kd] in \<open>simp add: closed_key_closure_of\<close>)
    with c set_eq show ?thesis by blast
  qed
  moreover have "get_closed_positions rows = []" if "length S \<le> 1"
  proof -
    show ?thesis
    proof (cases "get_closed_positions rows")
      case Nil
      then show ?thesis .
    next
      case (Cons c cs)
      then have "c \<in> set (closed_positions (reconcile S init_tracker))"
        using set_eq by (metis list.set_intros(1))
      from closed_origin[OF wf this] obtain i where "Suc i < length S" by blast
      with that show ?thesis by simp
    qed
  qed
  ultimately show ?thesis by blast
qed

text \<open>
  Claim C8. Every closed position returned is built from a fetched row with the same symbol,
  side and leverage, and its \<open>entry_price\<close>, \<open>exit_price\<close> and \<open>pnl_usd\<close> are that row's
  \<open>entry_price\<close>, \<open>mark_price\<close> and \<open>pnl_usd\<close> with \<open>0\<close> in place of a missing value. The three
  fields are numbers by type, and the function has no error result.
\<close>

theorem missing_numbers_default_to_zero:
  "\<forall>c \<in> set (get_closed_positions rows). \<exists>r \<in> set rows.
      symbol c = row_symbol r \<and> side c = row_side r \<and> leverage c = row_leverage r \<and>
      entry_price c = (case row_entry_price r of None \<Rightarrow> 0 | Some v \<Rightarrow> v) \<and>
      exit_price c = (case row_mark_price r of None \<Rightarrow> 0 | Some v \<Rightarrow> v) \<and>
      pnl_usd c = (case row_pnl_usd r of None \<Rightarrow> 0 | Some v \<Rightarrow> v)"
proof
  fix c assume "c \<in> set (get_closed_positions rows)"
  then have c: "c \<in> set (closed_positions (reconcile (walked_snapshots rows) init_tracker))"
    by (simp add: set_get_closed_positions)
  have wf: "\<forall>s \<in> set (walked_snapshots rows). snapshot_wf s"
    using walked_wf by blast
  from closed_origin[OF wf c] obtain i kd where i: "Suc i < length (walked_snapshots rows)"
    and kd: "kd \<in> set (positions (walked_snapshots rows ! i))"
    and ceq: "c = closure_of (snd kd) (opened_at c) (created_at (walked_snapshots rows ! Suc i))"
    by blast
  have "walked_snapshots rows ! i \<in> set (walked_snapshots rows)" using i by simp
  from walked_from_rows[OF this kd] obtain r where r: "r \<in> set rows"
    and d: "snd kd = pos_data_of_row r" by blast
  have "symbol c = row_symbol r \<and> side c = row_side r \<and> leverage c = row_leverage r \<and>
      entry_price c = (case row_entry_price r of None \<Rightarrow> 0 | Some v \<Rightarrow> v) \<and>
      exit_price c = (case row_mark_price r of None \<Rightarrow> 0 | Some v \<Rightarrow> v) \<and>
      pnl_usd c = (case row_pnl_usd r of None \<Rightarrow> 0 | Some v \<Rightarrow> v)"
    by (subst (1 2 3 4 5 6) ceq)
       (simp add: closure_of_fields d pos_data_of_row_def float_or_zero_def)
  with r show "\<exists>r \<in> set rows.
      symbol c = row_symbol r \<and> side c = row_side r \<and> leverage c = row_leverage r \<and>
      entry_price c = (case row_entry_price r of None \<Rightarrow> 0 | Some v \<Rightarrow> v) \<and>
      exit_price c = (case row_mark_price r of None \<Rightarrow> 0 | Some v \<Rightarrow> v) \<and>
      pnl_usd c = (case row_pnl_usd r of None \<Rightarrow> 0 | Some v \<Rightarrow> v)" by blast
qed

subsection \<open>The closed positions of one key\<close>

lemma filter_key_distinct:
  assumes "distinct (map fst xs)"
  shows "filter (\<lambda>kd. fst kd = k) xs =
           (case map_of xs k of None \<Rightarrow> [] | Some d \<Rightarrow> [(k, d)])"
  using assms
proof (induction xs)
  case Nil
  show ?case by simp
next
  case (Cons x xs)
  show ?case
  proof (cases "fst x = k")
    case True
    then have "k \<notin> fst ` set xs" using Cons.prems by auto
    then have "filter (\<lambda>kd. fst kd = k) xs = []"
      by (auto simp: filter_empty_conv)
    with True show ?thesis by (cases x) simp
  next
    case False
    with Cons show ?thesis by (cases x) simp
  qed
qed

lemma filter_key_vanished:
  assumes "distinct (map fst (positions cur))"
  shows "filter (\<lambda>kd. fst kd = k) (vanished cur nxt) =
     (case map_of (positions cur) k of
        None \<Rightarrow> []
      | Some d \<Rightarrow> if map_of (positions nxt) k = None then [(k, d)] else [])"
proof -
  have "filter (\<lambda>kd. fst kd = k) (vanished cur nxt) =
        filter (\<lambda>kd. map_of (positions nxt) (fst kd) = None)
          (filter (\<lambda>kd. fst kd = k) (positions cur))"
    unfolding vanished_def filter_filter by (rule filter_cong) auto
  also have "\<dots> = (case map_of (positions cur) k of
        None \<Rightarrow> []
      | Some d \<Rightarrow> if map_of (positions nxt) k = None then [(k, d)] else [])"
    unfolding filter_key_distinct[OF assms] by (cases "map_of (positions cur) k") simp_all
  finally show ?thesis .
qed

lemma key_closures_snoc:
  assumes "S \<noteq> []" "\<forall>s \<in> set S. snapshot_wf s"
  shows "filter (\<lambda>c. closed_key c = k) (closed_positions (reconcile (S @ [s]) init_tracker)) =
           filter (\<lambda>c. closed_key c = k) (closed_positions (reconcile S init_tracker)) @
           (case map_of (positions (last S)) k of
              None \<Rightarrow> []
            | Some d \<Rightarrow>
                if map_of (positions s) k = None
                then [closure_of d
                        (case run_opened_at S k of
                           None \<Rightarrow> created_at (last S) | Some t \<Rightarrow> t) (created_at s)]
                else [])"
proof -
  let ?g = "\<lambda>kd. closure_of (snd kd)
                  (case run_opened_at S (fst kd) of
                     None \<Rightarrow> created_at (last S) | Some t \<Rightarrow> t) (created_at s)"
  have wfl: "snapshot_wf (last S)" using assms by simp
  have d: "distinct (map fst (positions (last S)))" using wfl by (simp add: snapshot_wf_def)
  have key: "closed_key (?g kd) = fst kd" if "kd \<in> set (positions (last S))" for kd
    using wf_key[OF wfl that] by (simp add: closed_key_closure_of)
  have 1: "filter (\<lambda>c. closed_key c = k) (map ?g (vanished (last S) s)) =
          map ?g (filter (\<lambda>kd. closed_key (?g kd) = k) (vanished (last S) s))"
    by (simp only: filter_map comp_def)
  have 2: "filter (\<lambda>kd. closed_key (?g kd) = k) (vanished (last S) s) =
          filter (\<lambda>kd. fst kd = k) (vanished (last S) s)"
  proof (rule filter_cong[OF refl])
    fix kd assume "kd \<in> set (vanished (last S) s)"
    then have "kd \<in> set (positions (last S))" by (simp add: in_vanished)
    then show "(closed_key (?g kd) = k) = (fst kd = k)" by (simp only: key)
  qed
  have 3: "filter (\<lambda>c. closed_key c = k) (map ?g (vanished (last S) s)) =
      (case map_of (positions (last S)) k of
              None \<Rightarrow> []
            | Some d \<Rightarrow>
                if map_of (positions s) k = None
                then [closure_of d
                        (case run_opened_at S k of
                           None \<Rightarrow> created_at (last S) | Some t \<Rightarrow> t) (created_at s)]
                else [])"
    unfolding 1 2 filter_key_vanished[OF d]
    by (cases "map_of (positions (last S)) k") simp_all
  have "closed_positions (reconcile (S @ [s]) init_tracker) =
          closed_positions (reconcile S init_tracker) @ map ?g (vanished (last S) s)"
    by (rule closed_snoc[OF assms])
  then show ?thesis by (simp only: filter_append 3)
qed

lemma key_closures_stay_present:
  assumes "\<forall>s \<in> set (X @ Y). snapshot_wf s" "\<forall>s \<in> set Y. map_of (positions s) k \<noteq> None"
  shows "filter (\<lambda>c. closed_key c = k) (closed_positions (reconcile (X @ Y) init_tracker)) =
         filter (\<lambda>c. closed_key c = k) (closed_positions (reconcile X init_tracker))"
  using assms
proof (induction Y rule: rev_induct)
  case Nil
  show ?case by simp
next
  case (snoc s Y)
  have IH: "filter (\<lambda>c. closed_key c = k) (closed_positions (reconcile (X @ Y) init_tracker)) =
         filter (\<lambda>c. closed_key c = k) (closed_positions (reconcile X init_tracker))"
    using snoc by simp
  from snoc.prems(2) obtain y where y: "map_of (positions s) k = Some y" by auto
  show ?case
  proof (cases "X @ Y = []")
    case True
    then show ?thesis by (simp add: register_new_closed init_tracker_def)
  next
    case False
    have wf: "\<forall>s \<in> set (X @ Y). snapshot_wf s" using snoc.prems(1) by simp
    have "filter (\<lambda>c. closed_key c = k)
            (closed_positions (reconcile ((X @ Y) @ [s]) init_tracker)) =
          filter (\<lambda>c. closed_key c = k) (closed_positions (reconcile (X @ Y) init_tracker))"
      unfolding key_closures_snoc[OF False wf] using y by (simp split: option.split)
    with IH show ?thesis by simp
  qed
qed

lemma key_closures_stay_absent:
  assumes "\<forall>s \<in> set (X @ Y). snapshot_wf s" "\<forall>s \<in> set Y. map_of (positions s) k = None"
    and "X = [] \<or> map_of (positions (last X)) k = None"
  shows "filter (\<lambda>c. closed_key c = k) (closed_positions (reconcile (X @ Y) init_tracker)) =
         filter (\<lambda>c. closed_key c = k) (closed_positions (reconcile X init_tracker))"
  using assms
proof (induction Y rule: rev_induct)
  case Nil
  show ?case by simp
next
  case (snoc s Y)
  have IH: "filter (\<lambda>c. closed_key c = k) (closed_positions (reconcile (X @ Y) init_tracker)) =
         filter (\<lambda>c. closed_key c = k) (closed_positions (reconcile X init_tracker))"
    using snoc by simp
  show ?case
  proof (cases "X @ Y = []")
    case True
    then show ?thesis by (simp add: register_new_closed init_tracker_def)
  next
    case False
    have wf: "\<forall>s \<in> set (X @ Y). snapshot_wf s" using snoc.prems(1) by simp
    have "map_of (positions (last (X @ Y))) k = None"
    proof (cases "Y = []")
      case True
      with False snoc.prems(3) show ?thesis by simp
    next
      case nonempty: False
      then have "last (X @ Y) \<in> set Y" by simp
      with snoc.prems(2) show ?thesis by simp
    qed
    then have "filter (\<lambda>c. closed_key c = k)
            (closed_positions (reconcile ((X @ Y) @ [s]) init_tracker)) =
          filter (\<lambda>c. closed_key c = k) (closed_positions (reconcile (X @ Y) init_tracker))"
      unfolding key_closures_snoc[OF False wf] by simp
    with IH show ?thesis by simp
  qed
qed

lemma run_opened_at_present_run:
  assumes "B \<noteq> []" "\<forall>s \<in> set B. map_of (positions s) k \<noteq> None"
    and "run_opened_at A k = None"
  shows "run_opened_at (A @ B) k = Some (created_at (hd B))"
  using assms
proof (induction B rule: rev_induct)
  case Nil
  then show ?case by simp
next
  case (snoc s B)
  from snoc.prems(2) obtain y where y: "map_of (positions s) k = Some y" by auto
  show ?case
  proof (cases "B = []")
    case True
    have "run_opened_at (A @ [s]) k = Some (created_at s)"
      using y snoc.prems(3) by (simp add: run_opened_at_snoc)
    with True show ?thesis by simp
  next
    case False
    then have "run_opened_at (A @ B) k = Some (created_at (hd B))"
      using snoc by simp
    then have "run_opened_at ((A @ B) @ [s]) k = Some (created_at (hd B))"
      using y by (simp add: run_opened_at_def)
    with False show ?thesis by simp
  qed
qed

lemma run_opened_at_none:
  assumes "X = [] \<or> map_of (positions (last X)) k = None"
  shows "run_opened_at X k = None"
proof (cases "X = []")
  case True
  then show ?thesis by (simp add: run_opened_at_Nil)
next
  case False
  with assms have "map_of (positions (last X)) k = None" by simp
  with False show ?thesis by (rule run_opened_at_absent_last)
qed

lemma filter_sort_closed_desc_single:
  assumes "filter P cs = [r]"
  shows "filter P (sort_closed_desc cs) = [r]"
proof -
  have "mset (filter P (sort_closed_desc cs)) = mset (filter P cs)"
    by (simp add: mset_sort_closed_desc)
  then have "mset (filter P (sort_closed_desc cs)) = {#r#}"
    by (simp add: assms)
  then show ?thesis by (rule mset_single_iff[THEN iffD1])
qed

text \<open>
  Claim C3. Let the walked sequence be \<open>A @ B @ C @ D\<close>, the key \<open>k\<close> being absent throughout
  \<open>A\<close>, present throughout the non-empty run \<open>B\<close>, absent throughout the non-empty \<open>C\<close> and
  present again throughout the non-empty \<open>D\<close>, which reaches the last snapshot. Then the
  returned list holds exactly one closed position of \<open>k\<close>: the closure of the first run,
  built from the record of \<open>k\<close> in the last snapshot of \<open>B\<close>, opened at the first snapshot of
  \<open>B\<close> and closed at the first snapshot of \<open>C\<close>. The tracker holds the start of the first run
  while it lasts, has no entry for \<open>k\<close> once the closure has been emitted, and at the end
  holds the timestamp of the first snapshot of \<open>D\<close> for the second run.
\<close>

theorem reopen_independence:
  assumes "walked_snapshots rows = A @ B @ C @ D"
    and "\<forall>s \<in> set A. map_of (positions s) k = None"
    and "B \<noteq> []" and "\<forall>s \<in> set B. map_of (positions s) k \<noteq> None"
    and "C \<noteq> []" and "\<forall>s \<in> set C. map_of (positions s) k = None"
    and "D \<noteq> []" and "\<forall>s \<in> set D. map_of (positions s) k \<noteq> None"
  shows "(\<exists>d. map_of (positions (last B)) k = Some d \<and>
            filter (\<lambda>c. closed_key c = k) (get_closed_positions rows) =
              [closure_of d (created_at (hd B)) (created_at (hd C))])
       \<and> position_start_times (reconcile (A @ B) init_tracker) k = Some (created_at (hd B))
       \<and> position_start_times (reconcile (A @ B @ [hd C]) init_tracker) k = None
       \<and> position_start_times (run_tracker rows) k = Some (created_at (hd D))"
proof -
  let ?K = "\<lambda>X. filter (\<lambda>c. closed_key c = k) (closed_positions (reconcile X init_tracker))"
  obtain c0 C' where C: "C = c0 # C'" using assms(5) by (cases C) auto
  have c0: "map_of (positions c0) k = None" using assms(6) C by simp
  have wf: "\<forall>s \<in> set (A @ B @ C @ D). snapshot_wf s"
    using walked_wf[of _ rows] assms(1) by metis
  have wfA: "\<forall>s \<in> set ([] @ A). snapshot_wf s" using wf by auto
  have wfAB: "\<forall>s \<in> set (A @ B). snapshot_wf s" using wf by auto
  have wfABc: "\<forall>s \<in> set ((A @ B) @ [c0]). snapshot_wf s" using wf C by auto
  have wfABC: "\<forall>s \<in> set (((A @ B) @ [c0]) @ C'). snapshot_wf s" using wf C by auto
  have wfABCD: "\<forall>s \<in> set ((A @ B @ C) @ D). snapshot_wf s" using wf by auto
  have lastB: "last B \<in> set B" using assms(3) by simp
  then obtain d where d: "map_of (positions (last B)) k = Some d" using assms(4) by blast
  have AB_ne: "A @ B \<noteq> []" using assms(3) by simp
  have lastAB: "last (A @ B) = last B" using assms(3) by simp
  have noneA: "run_opened_at A k = None"
  proof (rule run_opened_at_none)
    show "A = [] \<or> map_of (positions (last A)) k = None"
      using assms(2) by (cases "A = []") simp_all
  qed
  have openAB: "run_opened_at (A @ B) k = Some (created_at (hd B))"
    using assms(3,4) noneA by (rule run_opened_at_present_run)
  have noneABc: "run_opened_at ((A @ B) @ [c0]) k = None"
    unfolding run_opened_at_snoc using c0 by simp
  have lastABC: "last (A @ B @ C) = last C" using assms(5) by simp
  have "last C \<in> set C" using assms(5) by simp
  then have "map_of (positions (last (A @ B @ C))) k = None"
    using assms(6) lastABC by simp
  then have noneABC: "run_opened_at (A @ B @ C) k = None"
    by (intro run_opened_at_none) simp
  have openD: "run_opened_at ((A @ B @ C) @ D) k = Some (created_at (hd D))"
    using assms(7,8) noneABC by (rule run_opened_at_present_run)
  have kA: "?K A = []"
    using key_closures_stay_absent[OF wfA assms(2), of ] by (simp add: init_tracker_def)
  have kAB: "?K (A @ B) = []"
    using key_closures_stay_present[OF wfAB assms(4)] kA by simp
  have kABc: "?K ((A @ B) @ [c0]) = [closure_of d (created_at (hd B)) (created_at c0)]"
    unfolding key_closures_snoc[OF AB_ne wfAB] lastAB
    by (simp add: d c0 openAB kAB)
  have abs': "\<forall>s \<in> set C'. map_of (positions s) k = None" using assms(6) C by simp
  have kABC: "?K (((A @ B) @ [c0]) @ C') = [closure_of d (created_at (hd B)) (created_at c0)]"
    using key_closures_stay_absent[OF wfABC abs'] c0 kABc by simp
  have eqC: "((A @ B) @ [c0]) @ C' = A @ B @ C" using C by simp
  have kABCD: "?K ((A @ B @ C) @ D) = [closure_of d (created_at (hd B)) (created_at c0)]"
    using key_closures_stay_present[OF wfABCD assms(8)] kABC unfolding eqC by simp
  have walked: "walked_snapshots rows = (A @ B @ C) @ D" using assms(1) by simp
  have 1: "filter (\<lambda>c. closed_key c = k) (get_closed_positions rows) =
              [closure_of d (created_at (hd B)) (created_at (hd C))]"
    unfolding get_closed_positions_def run_tracker_def walked
    using kABCD C by (intro filter_sort_closed_desc_single) simp
  have 2: "position_start_times (reconcile (A @ B) init_tracker) k = Some (created_at (hd B))"
    by (simp only: tracker_state[OF wfAB] openAB)
  have 3: "position_start_times (reconcile (A @ B @ [hd C]) init_tracker) k = None"
    using tracker_state[OF wfABc, of k] noneABc C by simp
  have 4: "position_start_times (run_tracker rows) k = Some (created_at (hd D))"
    unfolding run_tracker_def walked by (simp only: tracker_state[OF wfABCD] openD)
  from d 1 2 3 4 show ?thesis by blast
qed

section \<open>The example history\<close>

lemma walked_example_rows:
  "walked_snapshots example_rows =
  [\<lparr>created_at = 10, positions = [(''BTC_long'', \<lparr>pd_symbol = ''BTC'', pd_side = ''long'', pd_entry_price = 100, pd_mark_price = 110, pd_pnl_usd = 10, pd_leverage = None\<rparr>)]\<rparr>,
   \<lparr>created_at = 20, positions = [(''BTC_long'', \<lparr>pd_symbol = ''BTC'', pd_side = ''long'', pd_entry_price = 100, pd_mark_price = 120, pd_pnl_usd = 20, pd_leverage = None\<rparr>),
       (''ETH_short'', \<lparr>pd_symbol = ''ETH'', pd_side = ''short'', pd_entry_price = 0, pd_mark_price = 0, pd_pnl_usd = 0, pd_leverage = None\<rparr>)]\<rparr>,
   \<lparr>created_at = 30, positions = [(''ETH_short'', \<lparr>pd_symbol = ''ETH'', pd_side = ''short'', pd_entry_price = 0, pd_mark_price = 0, pd_pnl_usd = 0, pd_leverage = None\<rparr>)]\<rparr>,
   \<lparr>created_at = 40, positions = [(''BTC_long'', \<lparr>pd_symbol = ''BTC'', pd_side = ''long'', pd_entry_price = 130, pd_mark_price = 131, pd_pnl_usd = 1, pd_leverage = None\<rparr>),
       (''ETH_short'', \<lparr>pd_symbol = ''ETH'', pd_side = ''short'', pd_entry_price = 0, pd_mark_price = 0, pd_pnl_usd = 0, pd_leverage = None\<rparr>)]\<rparr>,
   \<lparr>created_at = 50, positions = [(''BTC_long'', \<lparr>pd_symbol = ''BTC'', pd_side = ''long'', pd_entry_price = 130, pd_mark_price = 125, pd_pnl_usd = - 5, pd_leverage = None\<rparr>)]\<rparr>]"
  by code_simp

lemma closed_example_rows:
  "get_closed_positions example_rows =
     [\<lparr>symbol = ''ETH'', side = ''short'', entry_price = 0, exit_price = 0,
       pnl_usd = 0, opened_at = 20, closed_at = 50, leverage = None\<rparr>,
      \<lparr>symbol = ''BTC'', side = ''long'', entry_price = 100, exit_price = 120,
       pnl_usd = 20, opened_at = 10, closed_at = 30, leverage = None\<rparr>]"
  by code_simp

theorem closures_of_adjacent_pairs_witness:
  "mset (map (\<lambda>c. c\<lparr>opened_at := 0\<rparr>) (get_closed_positions example_rows)) =
     mset [\<lparr>symbol = ''BTC'', side = ''long'', entry_price = 100, exit_price = 120,
            pnl_usd = 20, opened_at = 0, closed_at = 30, leverage = None\<rparr>,
           \<lparr>symbol = ''ETH'', side = ''short'', entry_price = 0, exit_price = 0,
            pnl_usd = 0, opened_at = 0, closed_at = 50, leverage = None\<rparr>]
   \<and> length (walked_snapshots example_rows) = 5"
  using closures_of_adjacent_pairs[OF refl, of example_rows]
  unfolding walked_example_rows
  by (simp add: vanished_def closure_of_def upt_rec)

theorem closed_keys_characterised_witness:
  "(\<exists>c \<in> set (get_closed_positions example_rows). closed_key c = ''ETH_short'')
   \<and> get_closed_positions [example_row 1 10 ''BTC'' ''long'' (Some 100) (Some 110) (Some 10)] = []"
proof -
  have "Suc 3 < length (walked_snapshots example_rows) \<and>
        map_of (positions (walked_snapshots example_rows ! 3)) ''ETH_short'' \<noteq> None \<and>
        map_of (positions (walked_snapshots example_rows ! Suc 3)) ''ETH_short'' = None"
    unfolding walked_example_rows by simp
  then have a: "\<exists>c \<in> set (get_closed_positions example_rows). closed_key c = ''ETH_short''"
    using closed_keys_characterised[OF refl, of example_rows "''ETH_short''"] by blast
  have "length (walked_snapshots
          [example_row 1 10 ''BTC'' ''long'' (Some 100) (Some 110) (Some 10)]) \<le> 1"
    by code_simp
  then have b: "get_closed_positions
          [example_row 1 10 ''BTC'' ''long'' (Some 100) (Some 110) (Some 10)] = []"
    using closed_keys_characterised[OF refl,
        of "[example_row 1 10 ''BTC'' ''long'' (Some 100) (Some 110) (Some 10)]"] by blast
  from a b show ?thesis by blast
qed

text \<open>\<open>BTC_long\<close> is in the last snapshot and in the returned list.\<close>

theorem last_snapshot_key_closed_counterexample:
  "map fst (positions (last (walked_snapshots example_rows))) = [''BTC_long'']
   \<and> map closed_key (get_closed_positions example_rows) = [''ETH_short'', ''BTC_long'']"
  unfolding walked_example_rows closed_example_rows
  by (simp add: closed_key_def pos_key_def)

theorem reopen_independence_witness:
  "filter (\<lambda>c. closed_key c = ''BTC_long'') (get_closed_positions example_rows) =
     [\<lparr>symbol = ''BTC'', side = ''long'', entry_price = 100, exit_price = 120,
       pnl_usd = 20, opened_at = 10, closed_at = 30, leverage = None\<rparr>]
   \<and> position_start_times (run_tracker example_rows) ''BTC_long'' = Some 40"
proof -
  let ?S = "walked_snapshots example_rows"
  have split: "?S = [] @ take 2 ?S @ [?S ! 2] @ drop 3 ?S"
    unfolding walked_example_rows by simp
  have h: "\<forall>s \<in> set []. map_of (positions s) ''BTC_long'' = None"
    "take 2 ?S \<noteq> []" "\<forall>s \<in> set (take 2 ?S). map_of (positions s) ''BTC_long'' \<noteq> None"
    "[?S ! 2] \<noteq> []" "\<forall>s \<in> set [?S ! 2]. map_of (positions s) ''BTC_long'' = None"
    "drop 3 ?S \<noteq> []" "\<forall>s \<in> set (drop 3 ?S). map_of (positions s) ''BTC_long'' \<noteq> None"
    unfolding walked_example_rows by simp_all
  from reopen_independence[OF split h]
  show ?thesis
    unfolding walked_example_rows by (simp add: closure_of_def)
qed

theorem missing_numbers_default_to_zero_witness:
  "\<lparr>symbol = ''ETH'', side = ''short'', entry_price = 0, exit_price = 0,
       pnl_usd = 0, opened_at = 20, closed_at = 50, leverage = None\<rparr>
     \<in> set (get_closed_positions example_rows)
   \<and> (\<exists>r \<in> set example_rows. row_symbol r = ''ETH'' \<and> row_side r = ''short'' \<and>
         (case row_entry_price r of None \<Rightarrow> 0 | Some v \<Rightarrow> v) = (0::rat) \<and>
         (case row_mark_price r of None \<Rightarrow> 0 | Some v \<Rightarrow> v) = (0::rat) \<and>
         (case row_pnl_usd r of None \<Rightarrow> 0 | Some v \<Rightarrow> v) = (0::rat))"
proof -
  let ?c = "\<lparr>symbol = ''ETH'', side = ''short'', entry_price = 0, exit_price = 0,
       pnl_usd = 0, opened_at = 20, closed_at = 50, leverage = None\<rparr>"
  have m: "?c \<in> set (get_closed_positions example_rows)"
    unfolding closed_example_rows by simp
  from missing_numbers_default_to_zero[of example_rows, THEN bspec, OF m] m
  show ?thesis by auto
qed

section \<open>The order in which snapshots are walked\<close>

lemma keys_build_first_seen:
  "map fst (build_snapshots_map rows) = rev (remdups (rev (map row_id rows)))"
proof (induction rows rule: rev_induct)
  case Nil
  show ?case by (simp add: build_snapshots_map_def)
next
  case (snoc r rows)
  have "map_of (build_snapshots_map rows) (row_id r) = None \<longleftrightarrow>
          row_id r \<notin> set (map row_id rows)"
  proof -
    have "map_of (build_snapshots_map rows) (row_id r) = None \<longleftrightarrow>
            row_id r \<notin> set (map fst (build_snapshots_map rows))"
      by (simp add: map_of_eq_None_iff)
    also have "\<dots> \<longleftrightarrow> row_id r \<notin> set (map row_id rows)"
      by (simp only: snoc.IH set_rev set_remdups)
    finally show ?thesis .
  qed
  then show ?case
    by (simp add: build_snoc keys_add_row snoc.IH)
qed

lemma keys_build_set: "fst ` set (build_snapshots_map rows) = row_id ` set rows"
proof -
  have "set (map fst (build_snapshots_map rows)) = set (map row_id rows)"
    by (simp only: keys_build_first_seen set_rev set_remdups)
  then show ?thesis by simp
qed

lemma sorted_walked: "sorted (map created_at (walked_snapshots rows))"
proof -
  have "map created_at (walked_snapshots rows) =
          map (\<lambda>e. created_at (snd e)) (sorted_snapshots (build_snapshots_map rows))"
    by (simp add: walked_snapshots_def comp_def)
  then show ?thesis by (simp add: sorted_snapshots_def)
qed

text \<open>
  Claim C7, amended. The snapshots are walked in ascending (non-decreasing) order of
  \<open>created_at\<close>. Snapshots of equal timestamp keep the order of \<open>snapshots_map\<close>, which is the
  order in which the snapshot ids first appear in the fetched rows: the sort is stable and the
  id is no part of its key.
\<close>

theorem snapshots_walked_in_timestamp_order:
  "sorted (map created_at (walked_snapshots rows))
   \<and> filter (\<lambda>e. created_at (snd e) = t) (sorted_snapshots (build_snapshots_map rows)) =
       filter (\<lambda>e. created_at (snd e) = t) (build_snapshots_map rows)
   \<and> map fst (build_snapshots_map rows) = rev (remdups (rev (map row_id rows)))
   \<and> mset (sorted_snap_ids (build_snapshots_map rows)) = mset (map fst (build_snapshots_map rows))"
proof -
  have "filter (\<lambda>e. created_at (snd e) = t) (sorted_snapshots (build_snapshots_map rows)) =
       filter (\<lambda>e. created_at (snd e) = t) (build_snapshots_map rows)"
    unfolding sorted_snapshots_def by (rule sort_key_stable)
  moreover have "mset (sorted_snap_ids (build_snapshots_map rows)) =
      mset (map fst (build_snapshots_map rows))"
    by (simp add: sorted_snap_ids_def sorted_snapshots_def)
  ultimately show ?thesis
    using sorted_walked keys_build_first_seen by blast
qed

theorem snapshots_walked_in_timestamp_order_witness:
  "sorted (map created_at (walked_snapshots example_rows))
   \<and> map fst (build_snapshots_map example_rows) = [1, 2, 3, 4, 5]"
  using snapshots_walked_in_timestamp_order[of example_rows]
  by (simp add: example_rows_def example_row_def)

text \<open>Of two snapshots of timestamp 10, the one of id 2 is walked before the one of id 1.\<close>

theorem tie_not_broken_by_id_counterexample:
  "sorted_snap_ids (build_snapshots_map tie_rows) = [2, 1]
   \<and> map created_at (walked_snapshots tie_rows) = [10, 10]"
  by code_simp

section \<open>Snapshots without position rows\<close>

lemma in_join_rows:
  "r \<in> set (join_rows snaps ops) \<longleftrightarrow>
     (\<exists>s \<in> set snaps. \<exists>p \<in> set ops. op_snapshot_id p = as_id s \<and> r = joined_row s p)"
  by (auto simp: join_rows_def)

lemma query_result_set:
  "query_result snaps ops rows \<Longrightarrow> set rows = set (join_rows snaps ops)"
  unfolding query_result_def by (metis mset_eq_setD)

lemma closed_from_successor:
  assumes "c \<in> set (get_closed_positions rows)" "W = walked_snapshots rows"
  shows "\<exists>i. Suc i < length W \<and> map_of (positions (W ! i)) (closed_key c) \<noteq> None \<and>
            map_of (positions (W ! Suc i)) (closed_key c) = None \<and>
            closed_at c = created_at (W ! Suc i)"
proof -
  have wf: "\<forall>s \<in> set W. snapshot_wf s" using assms(2) walked_wf by blast
  have c: "c \<in> set (closed_positions (reconcile W init_tracker))"
    using assms by (simp add: set_get_closed_positions)
  from closed_origin[OF wf c] obtain i kd where i: "Suc i < length W"
    and kd: "kd \<in> set (positions (W ! i))"
    and ab: "map_of (positions (W ! Suc i)) (fst kd) = None"
    and ceq: "c = closure_of (snd kd) (opened_at c) (created_at (W ! Suc i))"
    by blast
  have wfi: "snapshot_wf (W ! i)" using wf i by simp
  have key: "closed_key c = fst kd"
    by (subst ceq) (simp add: closed_key_closure_of wf_key[OF wfi kd])
  have "map_of (positions (W ! i)) (fst kd) = Some (snd kd)"
    using wf_map_of[OF wfi, of kd] kd by simp
  moreover have "closed_at c = created_at (W ! Suc i)"
    by (subst ceq) (simp add: closure_of_fields)
  ultimately show ?thesis using i ab key by auto
qed

lemma gap_query: "query_result gap_snapshots gap_positions (join_rows gap_snapshots gap_positions)"
  by (simp add: query_result_def join_rows_def gap_snapshots_def gap_positions_def joined_row_def)

lemma gap_closed:
  "get_closed_positions (join_rows gap_snapshots gap_positions) =
     [\<lparr>symbol = ''BTC'', side = ''long'', entry_price = 100, exit_price = 110,
       pnl_usd = 10, opened_at = 10, closed_at = 30, leverage = None\<rparr>]"
  by code_simp

text \<open>
  Claim C9. Let the rows be a result of the joined query over the two tables. A snapshot without
  position rows is not among the ids that the loop walks; every walked snapshot has at least
  one position; and every closed position returned has as \<open>closed_at\<close> the timestamp of a walked
  snapshot (one with at least one position) that follows immediately, in the walked sequence,
  a snapshot holding its key, and that lacks the key. There is a history in which a snapshot
  without positions lies strictly between \<open>opened_at\<close> and \<open>closed_at\<close> of a returned closed
  position: the key was already absent there, and the closure is dated later.
\<close>

theorem empty_snapshots_invisible:
  assumes "query_result snaps ops rows" and "W = walked_snapshots rows"
  shows "(\<forall>s \<in> set snaps. (\<forall>p \<in> set ops. op_snapshot_id p \<noteq> as_id s) \<longrightarrow>
            as_id s \<notin> set (sorted_snap_ids (build_snapshots_map rows)))
       \<and> (\<forall>w \<in> set W. positions w \<noteq> [])
       \<and> (\<forall>c \<in> set (get_closed_positions rows). \<exists>i. Suc i < length W \<and>
            map_of (positions (W ! i)) (closed_key c) \<noteq> None \<and>
            map_of (positions (W ! Suc i)) (closed_key c) = None \<and>
            positions (W ! Suc i) \<noteq> [] \<and>
            closed_at c = created_at (W ! Suc i))
       \<and> (\<exists>snaps' ops' rows' c s. query_result snaps' ops' rows' \<and>
            c \<in> set (get_closed_positions rows') \<and> s \<in> set snaps' \<and>
            (\<forall>p \<in> set ops'. op_snapshot_id p \<noteq> as_id s) \<and>
            opened_at c < as_created_at s \<and> as_created_at s < closed_at c)"
proof -
  have ids: "set (sorted_snap_ids (build_snapshots_map rows)) = row_id ` set rows"
    using keys_build_set[of rows]
    by (simp add: sorted_snap_ids_def set_sorted_snapshots)
  have 1: "\<forall>s \<in> set snaps. (\<forall>p \<in> set ops. op_snapshot_id p \<noteq> as_id s) \<longrightarrow>
            as_id s \<notin> set (sorted_snap_ids (build_snapshots_map rows))"
  proof (intro ballI impI notI)
    fix s assume s: "s \<in> set snaps" and none: "\<forall>p \<in> set ops. op_snapshot_id p \<noteq> as_id s"
      and "as_id s \<in> set (sorted_snap_ids (build_snapshots_map rows))"
    then obtain r where r: "r \<in> set rows" "row_id r = as_id s" unfolding ids by auto
    from r(1) have "r \<in> set (join_rows snaps ops)"
      using query_result_set[OF assms(1)] by simp
    then obtain s' p where "p \<in> set ops" "op_snapshot_id p = as_id s'" "r = joined_row s' p"
      unfolding in_join_rows by blast
    with r(2) have "p \<in> set ops" "op_snapshot_id p = as_id s"
      by (simp_all add: joined_row_def)
    with none show False by blast
  qed
  have wf: "\<forall>w \<in> set W. snapshot_wf w" using assms(2) walked_wf by blast
  then have 2: "\<forall>w \<in> set W. positions w \<noteq> []" by (simp add: snapshot_wf_def)
  have 3: "\<forall>c \<in> set (get_closed_positions rows). \<exists>i. Suc i < length W \<and>
            map_of (positions (W ! i)) (closed_key c) \<noteq> None \<and>
            map_of (positions (W ! Suc i)) (closed_key c) = None \<and>
            positions (W ! Suc i) \<noteq> [] \<and>
            closed_at c = created_at (W ! Suc i)"
  proof
    fix c assume "c \<in> set (get_closed_positions rows)"
    from closed_from_successor[OF this assms(2)] obtain i where i: "Suc i < length W"
      "map_of (positions (W ! i)) (closed_key c) \<noteq> None"
      "map_of (positions (W ! Suc i)) (closed_key c) = None"
      "closed_at c = created_at (W ! Suc i)" by blast
    from i(1) 2 have "positions (W ! Suc i) \<noteq> []" by simp
    with i show "\<exists>i. Suc i < length W \<and>
            map_of (positions (W ! i)) (closed_key c) \<noteq> None \<and>
            map_of (positions (W ! Suc i)) (closed_key c) = None \<and>
            positions (W ! Suc i) \<noteq> [] \<and>
            closed_at c = created_at (W ! Suc i)" by blast
  qed
  let ?c = "\<lparr>symbol = ''BTC'', side = ''long'', entry_price = 100, exit_price = 110,
       pnl_usd = 10, opened_at = 10, closed_at = 30, leverage = None\<rparr>"
  let ?s = "\<lparr>as_id = 2, as_created_at = 20, as_balance_usd = 1010\<rparr>"
  have "query_result gap_snapshots gap_positions (join_rows gap_snapshots gap_positions) \<and>
        ?c \<in> set (get_closed_positions (join_rows gap_snapshots gap_positions)) \<and>
        ?s \<in> set gap_snapshots \<and>
        (\<forall>p \<in> set gap_positions. op_snapshot_id p \<noteq> as_id ?s) \<and>
        opened_at ?c < as_created_at ?s \<and> as_created_at ?s < closed_at ?c"
  proof (intro conjI)
    show "query_result gap_snapshots gap_positions (join_rows gap_snapshots gap_positions)"
      by (rule gap_query)
    show "?c \<in> set (get_closed_positions (join_rows gap_snapshots gap_positions))"
      by (simp add: gap_closed)
    show "?s \<in> set gap_snapshots" by (simp add: gap_snapshots_def)
    show "\<forall>p \<in> set gap_positions. op_snapshot_id p \<noteq> as_id ?s"
      by (simp add: gap_positions_def)
  qed simp_all
  then have 4: "\<exists>snaps' ops' rows' c s. query_result snaps' ops' rows' \<and>
            c \<in> set (get_closed_positions rows') \<and> s \<in> set snaps' \<and>
            (\<forall>p \<in> set ops'. op_snapshot_id p \<noteq> as_id s) \<and>
            opened_at c < as_created_at s \<and> as_created_at s < closed_at c"
    by blast
  from 1 2 3 4 show ?thesis by blast
qed

theorem empty_snapshots_invisible_witness:
  "query_result gap_snapshots gap_positions (join_rows gap_snapshots gap_positions)
   \<and> 2 \<notin> set (sorted_snap_ids (build_snapshots_map (join_rows gap_snapshots gap_positions)))
   \<and> map closed_at (get_closed_positions (join_rows gap_snapshots gap_positions)) = [30]"
proof -
  have s: "\<lparr>as_id = 2, as_created_at = 20, as_balance_usd = 1010\<rparr> \<in> set gap_snapshots"
    by (simp add: gap_snapshots_def)
  have n: "\<forall>p \<in> set gap_positions.
      op_snapshot_id p \<noteq> as_id \<lparr>as_id = 2, as_created_at = 20, as_balance_usd = 1010\<rparr>"
    by (simp add: gap_positions_def)
  from empty_snapshots_invisible[OF gap_query refl] s n
  have "2 \<notin> set (sorted_snap_ids (build_snapshots_map (join_rows gap_snapshots gap_positions)))"
    by fastforce
  then show ?thesis using gap_query by (simp add: gap_closed)
qed

section \<open>Win/loss statistics\<close>

lemma py_round1_zero: "py_round1 0 = 0"
  by (simp add: py_round1_def)





section \<open>Regime split of the closed positions\<close>

text \<open>
  Claim C10. In the regime split of \<open>ui_closed_positions\<close> a closed position belongs to the
  current regime exactly when the date of its \<open>opened_at\<close> is on or after the cutover date,
  and to the archive regime otherwise; every position is in exactly one of the two, and
  replacing the \<open>closed_at\<close> of the positions by anything changes no assignment.
\<close>

theorem regime_split_uses_opened_at:
  "set (current_positions_of ps) = {p \<in> set ps. split_date \<le> date_of (opened_at p)}
   \<and> set (archive_positions_of ps) = {p \<in> set ps. \<not> split_date \<le> date_of (opened_at p)}
   \<and> mset (current_positions_of ps) + mset (archive_positions_of ps) = mset ps
   \<and> current_positions_of (map (\<lambda>p. p\<lparr>closed_at := f p\<rparr>) ps)
       = map (\<lambda>p. p\<lparr>closed_at := f p\<rparr>) (current_positions_of ps)
   \<and> archive_positions_of (map (\<lambda>p. p\<lparr>closed_at := f p\<rparr>) ps)
       = map (\<lambda>p. p\<lparr>closed_at := f p\<rparr>) (archive_positions_of ps)"
proof -
  have part: "mset (current_positions_of ps) + mset (archive_positions_of ps) = mset ps"
    unfolding current_positions_of_def archive_positions_of_def
    by (induction ps) auto
  show ?thesis
    using part
    by (auto simp: current_positions_of_def archive_positions_of_def filter_map comp_def)
qed

text \<open>A position opened on 2025-12-04 and closed on 2025-12-06 is in the archive regime.\<close>

theorem regime_split_uses_opened_at_witness:
  "archive_positions_of
     [\<lparr>symbol = ''BTC'', side = ''long'', entry_price = 1, exit_price = 2, pnl_usd = 1,
       opened_at = 63900489600000000, closed_at = 63900662400000000, leverage = None\<rparr>]
   = [\<lparr>symbol = ''BTC'', side = ''long'', entry_price = 1, exit_price = 2, pnl_usd = 1,
       opened_at = 63900489600000000, closed_at = 63900662400000000, leverage = None\<rparr>]
   \<and> current_positions_of
     [\<lparr>symbol = ''BTC'', side = ''long'', entry_price = 1, exit_price = 2, pnl_usd = 1,
       opened_at = 63900489600000000, closed_at = 63900662400000000, leverage = None\<rparr>] = []"
  using regime_split_uses_opened_at
    [of "[\<lparr>symbol = ''BTC'', side = ''long'', entry_price = 1, exit_price = 2, pnl_usd = 1,
       opened_at = 63900489600000000, closed_at = 63900662400000000, leverage = None\<rparr>]"]
  by (simp add: current_positions_of_def archive_positions_of_def split_date_def date_of_def)

section \<open>Balance statistics\<close>

lemma pnl_percent_of_eq:
  "pnl_percent_of pnl initial = Inr (if initial \<noteq> 0 then pnl / initial * 100 else 0)"
  by (simp add: pnl_percent_of_def py_truediv_def)

lemma archive_stats_of_returns: "\<exists>a. archive_stats_of points = Inr a"
  by (simp add: archive_stats_of_def pnl_percent_of_eq Let_def split: list.split)

lemma current_stats_of_eq:
  "current_stats_of points = Inr (Some
     (let cb = (case filter (\<lambda>p. split_date \<le> date_of (timestamp p)) points of
                  [] \<Rightarrow> initial_balance_new | p # ps \<Rightarrow> balance_usd (last (p # ps)))
      in \<lparr>initial_balance = initial_balance_new, current_balance = cb,
          stats_pnl_usd = cb - initial_balance_new,
          pnl_percent = (cb - initial_balance_new) / initial_balance_new * 100\<rparr>))"
  by (simp add: current_stats_of_def pnl_percent_of_eq Let_def initial_balance_new_def
      split: list.split)

text \<open>
  Claim C5, amended. For every non-empty balance series, \<open>ui_pnl_stats\<close> returns current-regime
  stats whose \<open>initial_balance\<close> is the constant 1032, whose \<open>current_balance\<close> is the balance
  of the last point on or after the cutover date, or the constant itself when there is no such
  point, with \<open>pnl_usd = current_balance - initial_balance\<close> and
  \<open>pnl_percent = pnl_usd / initial_balance * 100\<close>; with no current-regime point the stats are
  the constant twice, \<open>pnl_usd = 0\<close> and \<open>pnl_percent = 0\<close>. (For the empty series the function
  returns no stats at all and \<open>has_data = False\<close>.)
\<close>

theorem ui_pnl_stats_current_regime:
  assumes "points \<noteq> []"
  shows "\<exists>v c. ui_pnl_stats points = Inr v \<and> has_data v \<and> pnl_current_stats v = Some c
     \<and> initial_balance c = initial_balance_new
     \<and> current_balance c =
         (case filter (\<lambda>p. split_date \<le> date_of (timestamp p)) points of
            [] \<Rightarrow> initial_balance_new | p # ps \<Rightarrow> balance_usd (last (p # ps)))
     \<and> stats_pnl_usd c = current_balance c - initial_balance c
     \<and> pnl_percent c = stats_pnl_usd c / initial_balance c * 100
     \<and> (filter (\<lambda>p. split_date \<le> date_of (timestamp p)) points = [] \<longrightarrow>
          c = \<lparr>initial_balance = initial_balance_new, current_balance = initial_balance_new,
               stats_pnl_usd = 0, pnl_percent = 0\<rparr>)"
proof -
  obtain a where a: "archive_stats_of points = Inr a"
    using archive_stats_of_returns by blast
  show ?thesis
    using assms by (simp add: ui_pnl_stats_def a current_stats_of_eq Let_def)
qed

text \<open>A first point of 1000 on the cutover date is not the initial balance; the last point
  is the current balance.\<close>

theorem ui_pnl_stats_current_regime_witness:
  "\<exists>v. ui_pnl_stats [\<lparr>timestamp = 63900576000000000, balance_usd = 1000\<rparr>,
                      \<lparr>timestamp = 63900662400000000, balance_usd = 1100\<rparr>] = Inr v
     \<and> pnl_current_stats v = Some \<lparr>initial_balance = 1032, current_balance = 1100,
           stats_pnl_usd = 68, pnl_percent = 850 / 129\<rparr>"
  using ui_pnl_stats_current_regime
    [of "[\<lparr>timestamp = 63900576000000000, balance_usd = 1000\<rparr>,
          \<lparr>timestamp = 63900662400000000, balance_usd = 1100\<rparr>]"]
  by (auto simp: initial_balance_new_def split_date_def date_of_def)

text \<open>The empty series has zero current-regime points, and its current stats are absent.\<close>

theorem ui_pnl_stats_empty_series_counterexample:
  "ui_pnl_stats [] =
     Inr \<lparr>pnl_current_stats = None, pnl_archive_stats = None, has_data = False\<rparr>"
  by (simp add: ui_pnl_stats_def)

section \<open>Degenerate inputs\<close>

lemma get_closed_positions_short:
  assumes "length (walked_snapshots rows) \<le> 1"
  shows "get_closed_positions rows = []"
proof (cases "walked_snapshots rows")
  case Nil
  then show ?thesis
    by (simp add: get_closed_positions_def run_tracker_def init_tracker_def sort_closed_desc_def)
next
  case (Cons s rest)
  with assms have "walked_snapshots rows = [s]" by simp
  then show ?thesis
    by (simp add: get_closed_positions_def run_tracker_def init_tracker_def
        register_new_closed sort_closed_desc_def)
qed

lemma calculate_stats_Nil:
  "calculate_stats [] = Inr \<lparr>win_stats.total = 0, wins = 0, losses = 0, win_rate = 0\<rparr>"
  by (simp add: calculate_stats_def py_round1_zero)

lemma calculate_stats_returns: "\<exists>st. calculate_stats ps = Inr st"
proof (cases "ps = []")
  case True
  then show ?thesis by (simp add: calculate_stats_Nil)
next
  case False
  then have "0 < int (length ps)" by simp
  then show ?thesis by (simp add: calculate_stats_def py_truediv_def Let_def)
qed

lemma ui_closed_positions_returns: "\<exists>v. ui_closed_positions rows = Inr v"
proof -
  obtain cs where cs: "calculate_stats (current_positions_of (get_closed_positions rows)) = Inr cs"
    using calculate_stats_returns by blast
  obtain ars where ars: "calculate_stats (archive_positions_of (get_closed_positions rows)) = Inr ars"
    using calculate_stats_returns by blast
  show ?thesis by (simp add: ui_closed_positions_def Let_def cs ars)
qed

lemma ui_pnl_stats_returns: "\<exists>v. ui_pnl_stats points = Inr v"
proof -
  obtain a where a: "archive_stats_of points = Inr a"
    using archive_stats_of_returns by blast
  show ?thesis by (simp add: ui_pnl_stats_def a current_stats_of_eq)
qed

text \<open>
  Claim C6, amended. For an empty or single-element snapshot sequence the closed list is empty
  and both regimes have \<open>total = wins = losses = 0\<close> and \<open>win_rate = 0\<close>. No function raises:
  \<open>ui_closed_positions\<close> and \<open>ui_pnl_stats\<close> return for every input. The balance statistics of a
  regime without points are zero only for the current regime of a non-empty series (the constant
  1032 twice, \<open>pnl_usd = 0\<close>, \<open>pnl_percent = 0\<close>); the archive regime without points has no
  statistics at all, and for the empty series neither regime has and \<open>has_data\<close> is false.
\<close>

theorem degenerate_inputs_are_safe:
  "(length (walked_snapshots rows) \<le> 1 \<longrightarrow>
      get_closed_positions rows = [] \<and>
      ui_closed_positions rows =
        Inr \<lparr>current_positions = [], archive_positions = [],
             current_stats = \<lparr>win_stats.total = 0, wins = 0, losses = 0, win_rate = 0\<rparr>,
             archive_stats = \<lparr>win_stats.total = 0, wins = 0, losses = 0, win_rate = 0\<rparr>\<rparr>)
   \<and> calculate_stats [] = Inr \<lparr>win_stats.total = 0, wins = 0, losses = 0, win_rate = 0\<rparr>
   \<and> (\<exists>v. ui_closed_positions rows = Inr v)
   \<and> (\<exists>v. ui_pnl_stats points = Inr v)
   \<and> ui_pnl_stats [] =
        Inr \<lparr>pnl_current_stats = None, pnl_archive_stats = None, has_data = False\<rparr>
   \<and> (points \<noteq> [] \<and> filter (\<lambda>p. split_date \<le> date_of (timestamp p)) points = [] \<longrightarrow>
        (\<exists>v. ui_pnl_stats points = Inr v \<and>
           pnl_current_stats v =
             Some \<lparr>initial_balance = 1032, current_balance = 1032,
                   stats_pnl_usd = 0, pnl_percent = 0\<rparr>))
   \<and> (points \<noteq> [] \<and> filter (\<lambda>p. date_of (timestamp p) < split_date) points = [] \<longrightarrow>
        (\<exists>v. ui_pnl_stats points = Inr v \<and> pnl_archive_stats v = None))"
proof -
  have 1: "get_closed_positions rows = [] \<and>
      ui_closed_positions rows =
        Inr \<lparr>current_positions = [], archive_positions = [],
             current_stats = \<lparr>win_stats.total = 0, wins = 0, losses = 0, win_rate = 0\<rparr>,
             archive_stats = \<lparr>win_stats.total = 0, wins = 0, losses = 0, win_rate = 0\<rparr>\<rparr>"
    if "length (walked_snapshots rows) \<le> 1"
  proof -
    have e: "get_closed_positions rows = []" using that by (rule get_closed_positions_short)
    show ?thesis
      by (simp add: e ui_closed_positions_def current_positions_of_def archive_positions_of_def
          calculate_stats_Nil)
  qed
  have 5: "ui_pnl_stats [] =
        Inr \<lparr>pnl_current_stats = None, pnl_archive_stats = None, has_data = False\<rparr>"
    by (simp add: ui_pnl_stats_def)
  have 6: "\<exists>v. ui_pnl_stats points = Inr v \<and>
           pnl_current_stats v =
             Some \<lparr>initial_balance = 1032, current_balance = 1032,
                   stats_pnl_usd = 0, pnl_percent = 0\<rparr>"
    if "points \<noteq> []" "filter (\<lambda>p. split_date \<le> date_of (timestamp p)) points = []"
  proof -
    obtain a where a: "archive_stats_of points = Inr a"
      using archive_stats_of_returns by blast
    have "current_stats_of points =
        Inr (Some \<lparr>initial_balance = 1032, current_balance = 1032,
                   stats_pnl_usd = 0, pnl_percent = 0\<rparr>)"
      using that(2) by (simp add: current_stats_of_def)
    then show ?thesis using that(1) by (simp add: ui_pnl_stats_def a)
  qed
  have 7: "\<exists>v. ui_pnl_stats points = Inr v \<and> pnl_archive_stats v = None"
    if "points \<noteq> []" "filter (\<lambda>p. date_of (timestamp p) < split_date) points = []"
  proof -
    have "archive_stats_of points = Inr None"
      using that(2) by (simp add: archive_stats_of_def)
    then show ?thesis using that(1) by (simp add: ui_pnl_stats_def current_stats_of_eq)
  qed
  from 1 calculate_stats_Nil ui_closed_positions_returns ui_pnl_stats_returns 5 6 7
  show ?thesis by blast
qed

theorem degenerate_inputs_are_safe_witness:
  "get_closed_positions [example_row 1 10 ''ETH'' ''short'' None None None] = []
   \<and> (\<exists>v. ui_pnl_stats [\<lparr>timestamp = 63900489600000000, balance_usd = 1000\<rparr>] = Inr v \<and>
        pnl_current_stats v =
          Some \<lparr>initial_balance = 1032, current_balance = 1032,
                stats_pnl_usd = 0, pnl_percent = 0\<rparr>)"
proof -
  have l: "length (walked_snapshots [example_row 1 10 ''ETH'' ''short'' None None None]) \<le> 1"
    by code_simp
  have p: "[\<lparr>timestamp = 63900489600000000, balance_usd = 1000\<rparr>] \<noteq> [] \<and>
     filter (\<lambda>p. split_date \<le> date_of (timestamp p))
       [\<lparr>timestamp = 63900489600000000, balance_usd = 1000\<rparr>] = []"
    by (simp add: split_date_def date_of_def)
  from degenerate_inputs_are_safe
    [of "[example_row 1 10 ''ETH'' ''short'' None None None]"
        "[\<lparr>timestamp = 63900489600000000, balance_usd = 1000\<rparr>]"] l p
  show ?thesis by blast
qed

text \<open>A series with a single point on the cutover date: the archive regime has no points,
  and its statistics are absent, not zero.\<close>

theorem archive_without_points_counterexample:
  "ui_pnl_stats [\<lparr>timestamp = 63900576000000000, balance_usd = 1000\<rparr>] =
     Inr \<lparr>pnl_current_stats =
            Some \<lparr>initial_balance = 1032, current_balance = 1000,
                  stats_pnl_usd = - 32, pnl_percent = - (400 / 129)\<rparr>,
          pnl_archive_stats = None, has_data = True\<rparr>"
  by (simp add: ui_pnl_stats_def archive_stats_of_def current_stats_of_def pnl_percent_of_def
      py_truediv_def initial_balance_new_def split_date_def date_of_def)

end
